theory Spec2Isabelle
  imports Main "HOL-Library.Multiset"
begin

section \<open>Strings and patterns\<close>

text \<open>
  JavaScript strings are modelled as \<^typ>\<open>string\<close>, the bytes of their UTF-8
  encoding (file names come from the disk as such). The helpers below embed the string
  operations the sources use: \<^verbatim>\<open>startsWith\<close>, the regular-expression tests of the
  default rules, and the decimal rendering of an array index inside a template literal.
\<close>

fun starts_with :: "string \<Rightarrow> string \<Rightarrow> bool" where
  "starts_with [] s = True"
| "starts_with (p # ps) [] = False"
| "starts_with (p # ps) (c # cs) = (p = c \<and> starts_with ps cs)"

fun contains_str :: "string \<Rightarrow> string \<Rightarrow> bool" where
  "contains_str p [] = starts_with p []"
| "contains_str p (c # cs) = (starts_with p (c # cs) \<or> contains_str p cs)"

definition ends_with :: "string \<Rightarrow> string \<Rightarrow> bool" where
  "ends_with p s = starts_with (rev p) (rev s)"

text \<open>
  The \<^verbatim>\<open>i\<close> flag of a regular expression without the \<^verbatim>\<open>u\<close> flag folds case
  through upper-casing, and never lets a character outside ASCII match an ASCII one; for
  the ASCII literals of the default rules this is equality after mapping
  \<^verbatim>\<open>A-Z\<close> to \<^verbatim>\<open>a-z\<close>.
\<close>

definition to_lower :: "char \<Rightarrow> char" where
  "to_lower c =
     (case map_of (zip ''ABCDEFGHIJKLMNOPQRSTUVWXYZ'' ''abcdefghijklmnopqrstuvwxyz'') c of
        Some l \<Rightarrow> l
      | None \<Rightarrow> c)"

definition lower :: "string \<Rightarrow> string" where
  "lower s = map to_lower s"

text \<open>\<^verbatim>\<open>/lit/i.test(s)\<close> for a literal without metacharacters.\<close>

definition regex_contains_ci :: "string \<Rightarrow> string \<Rightarrow> bool" where
  "regex_contains_ci lit s = contains_str (lower lit) (lower s)"

text \<open>\<^verbatim>\<open>/lit$/i.test(s)\<close>: the literal at the end of the input.\<close>

definition regex_ends_ci :: "string \<Rightarrow> string \<Rightarrow> bool" where
  "regex_ends_ci lit s = ends_with (lower lit) (lower s)"

definition digit_char :: "nat \<Rightarrow> char" where
  "digit_char d = ''0123456789'' ! d"

fun string_of_nat :: "nat \<Rightarrow> string" where
  "string_of_nat n =
     (if n < 10 then [digit_char n]
      else string_of_nat (n div 10) @ [digit_char (n mod 10)])"

declare string_of_nat.simps [simp del]

section \<open>Values\<close>

text \<open>
  The normalizer takes \<^verbatim>\<open>unknown\<close>: any JavaScript value. Objects and arrays have
  identity (the \<^verbatim>\<open>WeakSet\<close> of seen objects holds references) and may be shared or
  cyclic, so an input is a value over an explicit store: a primitive, or a reference to a
  node of the store. A node is an array with its items (no holes), or an object with its
  own enumerable string-keyed properties in the order \<^verbatim>\<open>Object.entries\<close> lists
  them. Every address holds a node, so that no reference dangles. Numbers are never
  computed on by the normalizer and are carried as integers; \<open>JOther\<close> stands for the
  remaining values whose \<^verbatim>\<open>typeof\<close> is not \<^verbatim>\<open>'object'\<close> (functions, symbols, big
  integers), which the normalizer passes through like the other primitives.
\<close>

type_synonym addr = nat

datatype jsval =
    JUndefined
  | JNull
  | JBool bool
  | JNum int
  | JStr string
  | JOther nat
  | JRef addr

datatype jsnode =
    NArray "jsval list"
  | NObject "(string \<times> jsval) list"

type_synonym heap = "addr \<Rightarrow> jsnode"

text \<open>
  What \<^verbatim>\<open>normalize\<close> returns is built from fresh arrays (\<^verbatim>\<open>obj.map\<close>) and
  fresh objects (\<^verbatim>\<open>result\<close>), so a result is a tree: a value passed through or
  substituted verbatim at a leaf, a fresh array, or a fresh object.
\<close>

datatype outval =
    OVal jsval
  | OArray "outval list"
  | OObject "(string \<times> outval) list"

section \<open>Normalizer configuration\<close>

datatype pattern =
    PString string
  | PRegExp "string \<Rightarrow> bool"

text \<open>
  A \<^verbatim>\<open>RegExp\<close> is represented by its \<^verbatim>\<open>test\<close> function (a regular expression
  without the \<^verbatim>\<open>g\<close> or \<^verbatim>\<open>y\<close> flag, whose \<^verbatim>\<open>test\<close> keeps no state). An omitted
  \<^verbatim>\<open>replacement\<close> is \<^verbatim>\<open>undefined\<close>. A custom normalizer is a function of the raw
  value and the path that returns a value.
\<close>

record field_rule =
  pattern :: pattern
  replacement :: outval
  deep :: bool

record custom_normalizer =
  cn_pattern :: pattern
  normalizer :: "jsval \<Rightarrow> string \<Rightarrow> outval"

record normalizer_config =
  fieldsToNormalize :: "field_rule list"
  fieldsToIgnore :: "pattern list"
  customNormalizers :: "custom_normalizer list"

definition rule :: "pattern \<Rightarrow> string \<Rightarrow> field_rule" where
  "rule p r = \<lparr> pattern = p, replacement = OVal (JStr r), deep = True \<rparr>"

definition DEFAULT_CONFIG :: normalizer_config where
  "DEFAULT_CONFIG = \<lparr>
     fieldsToNormalize = [
       rule (PRegExp (regex_ends_ci ''id'')) ''<<ID>>'',
       rule (PRegExp (regex_contains_ci ''timestamp'')) ''<<TIMESTAMP>>'',
       rule (PRegExp (regex_contains_ci ''created'')) ''<<TIMESTAMP>>'',
       rule (PRegExp (regex_contains_ci ''startTime'')) ''<<TIMESTAMP>>'',
       rule (PRegExp (regex_contains_ci ''elapsedMs'')) ''<<ELAPSED_MS>>'',
       rule (PRegExp (regex_contains_ci ''ttftMs'')) ''<<TTFT_MS>>'',
       rule (PRegExp (regex_contains_ci ''ttltMs'')) ''<<TTLT_MS>>'',
       rule (PRegExp (regex_contains_ci ''executionTime'')) ''<<EXECUTION_TIME>>'',
       rule (PRegExp (regex_contains_ci ''toolCallId'')) ''<<TOOL_CALL_ID>>'',
       rule (PRegExp (regex_contains_ci ''sessionId'')) ''<<SESSION_ID>>'',
       rule (PRegExp (regex_contains_ci ''messageId'')) ''<<MESSAGE_ID>>'',
       rule (PRegExp (regex_contains_ci ''image_url'')) ''<<IMAGE_URL>>''
     ],
     fieldsToIgnore = [],
     customNormalizers = [] \<rparr>"

text \<open>
  The constructor: each list of the caller's configuration is appended to the default
  list. An absent configuration, or an absent list in it, counts as the empty list
  (\<^verbatim>\<open>config?.fieldsToNormalize ?? []\<close>).
\<close>

definition new_normalizer :: "normalizer_config \<Rightarrow> normalizer_config" where
  "new_normalizer config = \<lparr>
     fieldsToNormalize = fieldsToNormalize DEFAULT_CONFIG @ fieldsToNormalize config,
     fieldsToIgnore = fieldsToIgnore DEFAULT_CONFIG @ fieldsToIgnore config,
     customNormalizers = customNormalizers DEFAULT_CONFIG @ customNormalizers config \<rparr>"

definition no_config :: normalizer_config where
  "no_config = \<lparr> fieldsToNormalize = [], fieldsToIgnore = [], customNormalizers = [] \<rparr>"

section \<open>The normalizer\<close>

fun matchesPattern :: "pattern \<Rightarrow> string \<Rightarrow> string \<Rightarrow> bool" where
  "matchesPattern (PRegExp test) key path = (test key \<or> test path)"
| "matchesPattern (PString s) key path = (key = s \<or> path = s)"

definition shouldIgnoreField :: "normalizer_config \<Rightarrow> string \<Rightarrow> string \<Rightarrow> bool" where
  "shouldIgnoreField cfg key path =
     list_ex (\<lambda>p. case p of
                    PRegExp test \<Rightarrow> test key \<or> test path
                  | PString s \<Rightarrow> key = s \<or> path = s)
       (fieldsToIgnore cfg)"

text \<open>
  \<^verbatim>\<open>normalizeField\<close>: the first loop returns at the first custom normalizer whose
  pattern matches, the second at the first rule whose pattern matches; otherwise the
  function returns \<^verbatim>\<open>undefined\<close>.
\<close>

definition normalizeField :: "normalizer_config \<Rightarrow> string \<Rightarrow> jsval \<Rightarrow> string \<Rightarrow> outval" where
  "normalizeField cfg key val path =
     (case find (\<lambda>c. matchesPattern (cn_pattern c) key path) (customNormalizers cfg) of
        Some c \<Rightarrow> normalizer c val path
      | None \<Rightarrow>
          (case find (\<lambda>r. matchesPattern (pattern r) key path) (fieldsToNormalize cfg) of
             Some r \<Rightarrow> replacement r
           | None \<Rightarrow> OVal JUndefined))"

text \<open>
  \<^verbatim>\<open>result[key] = v\<close> on the fresh object \<^verbatim>\<open>result\<close>. The keys come from
  \<^verbatim>\<open>Object.entries\<close> of one object, in its order, so an assignment adds a property at
  the end (a key already present keeps its place and takes the new value). The key
  \<^verbatim>\<open>__proto__\<close> is the exception: the assignment goes to the accessor inherited from
  \<^verbatim>\<open>Object.prototype\<close>, and \<^verbatim>\<open>result\<close> gets no own property.
\<close>

fun assign :: "(string \<times> outval) list \<Rightarrow> string \<Rightarrow> outval \<Rightarrow> (string \<times> outval) list" where
  "assign [] key v = [(key, v)]"
| "assign ((k, w) # ps) key v = (if k = key then (k, v) # ps else (k, w) # assign ps key v)"

definition set_prop :: "(string \<times> outval) list \<Rightarrow> string \<Rightarrow> outval \<Rightarrow> (string \<times> outval) list" where
  "set_prop result key v = (if key = ''__proto__'' then result else assign result key v)"

type_synonym seen = "addr set"

text \<open>
  The recursion of \<^verbatim>\<open>normalize\<close> goes through \<^verbatim>\<open>obj.map\<close> and through the
  \<^verbatim>\<open>for\<close> loop over the entries; both are written over the recursive call \<open>rec\<close>, and
  thread the set of seen objects (the field \<^verbatim>\<open>seenObjects\<close>) from one call to the next.
  A call that does not return makes the whole traversal not return.
\<close>

text \<open>
  The paths of the recursive calls: \<^verbatim>\<open>`${path}[${index}]`\<close> for an array item, and
  \<^verbatim>\<open>path ? `${path}.${key}` : key\<close> for a member of an object.
\<close>

definition item_path :: "string \<Rightarrow> nat \<Rightarrow> string" where
  "item_path path index = path @ ''['' @ string_of_nat index @ '']''"

definition member_path :: "string \<Rightarrow> string \<Rightarrow> string" where
  "member_path path key = (if path \<noteq> [] then path @ ''.'' @ key else key)"

fun map_items ::
  "(seen \<Rightarrow> jsval \<Rightarrow> string \<Rightarrow> (outval \<times> seen) option) \<Rightarrow> string \<Rightarrow> nat \<Rightarrow> jsval list \<Rightarrow> seen
     \<Rightarrow> (outval list \<times> seen) option" where
  "map_items rec path index [] sn = Some ([], sn)"
| "map_items rec path index (item # items) sn =
     (case rec sn item (item_path path index) of
        None \<Rightarrow> None
      | Some (y, sn1) \<Rightarrow>
          (case map_items rec path (Suc index) items sn1 of
             None \<Rightarrow> None
           | Some (ys, sn2) \<Rightarrow> Some (y # ys, sn2)))"

fun loop_entries ::
  "(seen \<Rightarrow> jsval \<Rightarrow> string \<Rightarrow> (outval \<times> seen) option) \<Rightarrow> normalizer_config \<Rightarrow> string
     \<Rightarrow> (string \<times> outval) list \<Rightarrow> (string \<times> jsval) list \<Rightarrow> seen
     \<Rightarrow> ((string \<times> outval) list \<times> seen) option" where
  "loop_entries rec cfg path result [] sn = Some (result, sn)"
| "loop_entries rec cfg path result ((key, val) # entries) sn =
     (let currentPath = member_path path key in
      if shouldIgnoreField cfg key currentPath then loop_entries rec cfg path result entries sn
      else
        let normalized = normalizeField cfg key val currentPath in
        if normalized \<noteq> OVal JUndefined
        then loop_entries rec cfg path (set_prop result key normalized) entries sn
        else
          (case rec sn val currentPath of
             None \<Rightarrow> None
           | Some (r, sn1) \<Rightarrow> loop_entries rec cfg path (set_prop result key r) entries sn1))"

text \<open>
  \<^verbatim>\<open>normalize(obj, path)\<close>, with the field \<^verbatim>\<open>seenObjects\<close> as an argument and a
  result. The first argument bounds the depth of the recursion: \<open>None\<close> is a
  call that needs a deeper stack than that, and a call that is \<open>None\<close> for every bound
  never returns.
\<close>

primrec normalize_fuel ::
  "nat \<Rightarrow> normalizer_config \<Rightarrow> heap \<Rightarrow> seen \<Rightarrow> jsval \<Rightarrow> string \<Rightarrow> (outval \<times> seen) option" where
  "normalize_fuel 0 cfg h seenObjects obj path = None"
| "normalize_fuel (Suc n) cfg h seenObjects obj path =
     (let sn = (if path = [] then {} else seenObjects) in
      case obj of
        JRef a \<Rightarrow>
          if a \<in> sn then Some (OVal (JStr ''[Circular]''), sn)
          else
            (case h a of
               NArray items \<Rightarrow>
                 map_option (\<lambda>(ys, sn'). (OArray ys, sn'))
                   (map_items (normalize_fuel n cfg h) path 0 items (insert a sn))
             | NObject entries \<Rightarrow>
                 map_option (\<lambda>(r, sn'). (OObject r, sn'))
                   (loop_entries (normalize_fuel n cfg h) cfg path [] entries (insert a sn)))
      | _ \<Rightarrow> Some (OVal obj, sn))"

definition session_heap :: heap where
  "session_heap =
     (\<lambda>_. NObject [])(0 := NObject [(''sessionId'', JStr ''abc123''), (''value'', JNum 5)])"

text \<open>The object \<^verbatim>\<open>o\<close> after \<^verbatim>\<open>const o = {}; o[''] = o\<close>.\<close>

definition self_heap :: heap where
  "self_heap = (\<lambda>_. NObject [])(0 := NObject [([], JRef 0)])"

text \<open>
  A caller's configuration with a rule of its own for \<^verbatim>\<open>requestId\<close>, and one whose
  only rule names the field \<^verbatim>\<open>note\<close> and gives no replacement.
\<close>

definition request_config :: normalizer_config where
  "request_config = \<lparr>
     fieldsToNormalize = [\<lparr> pattern = PRegExp (contains_str ''requestId''),
                            replacement = OVal (JStr ''<<REQUEST_ID>>''), deep = False \<rparr>],
     fieldsToIgnore = [],
     customNormalizers = [] \<rparr>"

definition note_config :: normalizer_config where
  "note_config = \<lparr>
     fieldsToNormalize = [\<lparr> pattern = PString ''note'', replacement = OVal JUndefined,
                            deep = False \<rparr>],
     fieldsToIgnore = [],
     customNormalizers = [] \<rparr>"

text \<open>The object \<^verbatim>\<open>{note: {id: "x"}}\<close>.\<close>

definition note_heap :: heap where
  "note_heap = (\<lambda>_. NObject [])
     (0 := NObject [(''note'', JRef 2)], 2 := NObject [(''id'', JStr ''x'')])"

subsection \<open>Returning, acyclic inputs, and results as inputs\<close>

text \<open>
  The top-level call \<^verbatim>\<open>normalize(obj)\<close>, made when the field \<^verbatim>\<open>seenObjects\<close> holds
  \<open>seenObjects\<close>, returns \<open>t\<close>: some depth of recursion is enough for it.
\<close>

definition normalize_returns ::
  "normalizer_config \<Rightarrow> heap \<Rightarrow> seen \<Rightarrow> jsval \<Rightarrow> outval \<Rightarrow> bool" where
  "normalize_returns cfg h seenObjects obj t \<longleftrightarrow>
     (\<exists>n sn. normalize_fuel n cfg h seenObjects obj [] = Some (t, sn))"

text \<open>\<^verbatim>\<open>typeof v === 'object' && v !== null\<close>\<close>

fun is_object :: "jsval \<Rightarrow> bool" where
  "is_object (JRef a) = True"
| "is_object v = False"

text \<open>
  An acyclic value: a primitive, or a reference to an array or object all of whose items
  or member values are acyclic. Objects may be shared; no chain of references comes
  back to where it started.
\<close>

inductive acyclic_value :: "heap \<Rightarrow> jsval \<Rightarrow> bool" for h :: heap where
  primitive: "\<not> is_object v \<Longrightarrow> acyclic_value h v"
| array: "h a = NArray items \<Longrightarrow> \<forall>x \<in> set items. acyclic_value h x \<Longrightarrow> acyclic_value h (JRef a)"
| object: "h a = NObject entries \<Longrightarrow> \<forall>x \<in> set (map snd entries). acyclic_value h x
           \<Longrightarrow> acyclic_value h (JRef a)"

text \<open>
  A result of \<^verbatim>\<open>normalize\<close> passed to \<^verbatim>\<open>normalize\<close> again is a value of the store
  like any other. \<open>fresh_copy h v t A\<close>: in the store \<open>h\<close>, the value \<open>v\<close> is the
  result \<open>t\<close>, every fresh array and fresh object of \<open>t\<close> being a node of its own; \<open>A\<close>
  is the set of the addresses of these nodes.
\<close>

inductive fresh_copy :: "heap \<Rightarrow> jsval \<Rightarrow> outval \<Rightarrow> addr set \<Rightarrow> bool"
  and fresh_copies :: "heap \<Rightarrow> jsval list \<Rightarrow> outval list \<Rightarrow> addr set \<Rightarrow> bool"
  for h :: heap where
  leaf: "\<not> is_object v \<Longrightarrow> fresh_copy h v (OVal v) {}"
| arr: "h a = NArray items \<Longrightarrow> fresh_copies h items ts A \<Longrightarrow> a \<notin> A
         \<Longrightarrow> fresh_copy h (JRef a) (OArray ts) (insert a A)"
| obj: "h a = NObject entries \<Longrightarrow> map fst entries = map fst members
         \<Longrightarrow> fresh_copies h (map snd entries) (map snd members) A \<Longrightarrow> a \<notin> A
         \<Longrightarrow> fresh_copy h (JRef a) (OObject members) (insert a A)"
| none: "fresh_copies h [] [] {}"
| more: "fresh_copy h x t A \<Longrightarrow> fresh_copies h xs ts B \<Longrightarrow> A \<inter> B = {}
         \<Longrightarrow> fresh_copies h (x # xs) (t # ts) (A \<union> B)"

text \<open>
  A result without a reference to a node of the input store at a leaf, and a
  configuration all of whose replacements are such.
\<close>

fun plain :: "outval \<Rightarrow> bool" where
  "plain (OVal v) = (\<not> is_object v)"
| "plain (OArray ts) = list_all plain ts"
| "plain (OObject ms) = list_all plain (map snd ms)"

definition plain_rules :: "normalizer_config \<Rightarrow> bool" where
  "plain_rules cfg = list_all (\<lambda>r. plain (replacement r)) (fieldsToNormalize cfg)"

text \<open>
  \<open>stable_at m cfg path t\<close>: \<^verbatim>\<open>normalize\<close> called at \<open>path\<close> on any fresh copy of \<open>t\<close>
  none of whose nodes has been seen returns \<open>t\<close> again, within the depth \<open>m\<close>, and
  sees no object but the nodes of the copy.
\<close>

definition stable_at :: "nat \<Rightarrow> normalizer_config \<Rightarrow> string \<Rightarrow> outval \<Rightarrow> bool" where
  "stable_at m cfg path t \<longleftrightarrow>
     (\<forall>n h x A sn. m \<le> n \<and> fresh_copy h x t A \<and> A \<inter> sn = {} \<longrightarrow>
        (\<exists>sn'. normalize_fuel n cfg h sn x path = Some (t, sn') \<and> sn' \<subseteq> sn \<union> A))"

fun items_stable :: "nat \<Rightarrow> normalizer_config \<Rightarrow> string \<Rightarrow> nat \<Rightarrow> outval list \<Rightarrow> bool" where
  "items_stable m cfg path index [] = True"
| "items_stable m cfg path index (t # ts) =
     (stable_at m cfg (item_path path index) t \<and> items_stable m cfg path (Suc index) ts)"

text \<open>
  A member of a result object as the loop over the entries leaves it: not the key
  \<^verbatim>\<open>__proto__\<close>, not ignored, and either the replacement of the rule that matches its
  key and path, or, when \<^verbatim>\<open>normalizeField\<close> gives \<^verbatim>\<open>undefined\<close>, a stable result.
\<close>

definition member_stable :: "nat \<Rightarrow> normalizer_config \<Rightarrow> string \<Rightarrow> string \<times> outval \<Rightarrow> bool" where
  "member_stable m cfg path f =
     (fst f \<noteq> ''__proto__'' \<and>
      \<not> shouldIgnoreField cfg (fst f) (member_path path (fst f)) \<and>
      (if normalizeField cfg (fst f) JUndefined (member_path path (fst f)) \<noteq> OVal JUndefined
       then snd f = normalizeField cfg (fst f) JUndefined (member_path path (fst f))
       else stable_at m cfg (member_path path (fst f)) (snd f)))"

definition members_stable ::
  "nat \<Rightarrow> normalizer_config \<Rightarrow> string \<Rightarrow> (string \<times> outval) list \<Rightarrow> bool" where
  "members_stable m cfg path members =
     (distinct (map fst members) \<and> list_all (member_stable m cfg path) members)"

text \<open>The object \<^verbatim>\<open>o\<close> after \<^verbatim>\<open>const o = {}; o.self = o\<close>.\<close>

definition named_cycle_heap :: heap where
  "named_cycle_heap = (\<lambda>_. NObject [])(0 := NObject [(''self'', JRef 0)])"

text \<open>
  An object whose two members are the same array,
  \<^verbatim>\<open>const xs = [1]; const o = {first: xs, second: xs}\<close>, and a store that holds what
  \<^verbatim>\<open>normalize(o)\<close> returns, \<^verbatim>\<open>{first: [1], second: "[Circular]"}\<close>.
\<close>

definition shared_heap :: heap where
  "shared_heap = (\<lambda>_. NObject [])
     (0 := NObject [(''first'', JRef 2), (''second'', JRef 2)], 2 := NArray [JNum 1])"

definition shared_result :: outval where
  "shared_result =
     OObject [(''first'', OArray [OVal (JNum 1)]), (''second'', OVal (JStr ''[Circular]''))]"

definition result_heap :: heap where
  "result_heap = (\<lambda>_. NObject [])
     (4 := NObject [(''first'', JRef 5), (''second'', JStr ''[Circular]'')],
      5 := NArray [JNum 1])"

section \<open>Hook base\<close>

text \<open>
  The nine callback properties of the agent that \<^verbatim>\<open>hookAgent\<close> replaces. A callback
  value is \<^verbatim>\<open>undefined\<close>, some function of the runtime, or the wrapper that
  \<^verbatim>\<open>hookAgent\<close> installs for an extension point.
\<close>

datatype ext_point =
    OnLLMRequest | OnLLMResponse | OnLLMStreamingResponse | OnAgentLoopEnd
  | OnEachAgentLoopStart | OnBeforeToolCall | OnAfterToolCall | OnToolCallError
  | OnProcessToolCalls

datatype callback = NoCallback | Fn nat | Instrumented ext_point

text \<open>An \<^verbatim>\<open>Error\<close> object, by its \<^verbatim>\<open>name\<close> and its \<^verbatim>\<open>message\<close>.\<close>

datatype js_error = JsError (error_name: string) (message: string)

text \<open>\<^verbatim>\<open>new Error(msg)\<close>\<close>

definition new_Error :: "string \<Rightarrow> js_error" where
  "new_Error msg = JsError ''Error'' msg"

text \<open>
  A thrown value: an \<^verbatim>\<open>Error\<close>; a value that converts to the given string; a symbol
  with the given description, which \<^verbatim>\<open>String(..)\<close> converts and a template literal
  refuses; or a value whose conversion to a string throws the given value in turn (an
  object with no usable \<^verbatim>\<open>toString\<close>, say).
\<close>

datatype thrown =
    ThrownError js_error
  | ThrownValue string
  | ThrownSymbol string
  | ThrownUnprintable thrown

datatype 'a outcome = Returns 'a | Throws thrown

fun is_returns :: "'a outcome \<Rightarrow> bool" where
  "is_returns (Returns _) = True"
| "is_returns (Throws _) = False"

text \<open>\<^verbatim>\<open>Error.prototype.toString\<close>\<close>

definition error_text :: "js_error \<Rightarrow> string" where
  "error_text e =
     (if error_name e = [] then message e
      else if message e = [] then error_name e
      else error_name e @ '': '' @ message e)"

text \<open>\<^verbatim>\<open>String(v)\<close> and \<^verbatim>\<open>`${v}`\<close>\<close>

fun to_String :: "thrown \<Rightarrow> string outcome" where
  "to_String (ThrownError e) = Returns (error_text e)"
| "to_String (ThrownValue s) = Returns s"
| "to_String (ThrownSymbol d) = Returns (''Symbol('' @ d @ '')'')"
| "to_String (ThrownUnprintable t) = Throws t"

fun template :: "thrown \<Rightarrow> string outcome" where
  "template (ThrownSymbol d) =
     Throws (ThrownError (JsError ''TypeError'' ''Cannot convert a Symbol value to a string''))"
| "template v = to_String v"

text \<open>\<^verbatim>\<open>error instanceof Error ? error : new Error(String(error))\<close>\<close>

fun as_error :: "thrown \<Rightarrow> js_error outcome" where
  "as_error (ThrownError e) = Returns e"
| "as_error v = (case to_String v of Returns s \<Rightarrow> Returns (new_Error s) | Throws t \<Rightarrow> Throws t)"

datatype log_level = LDebug | LInfo | LWarn | LError | LSuccess

type_synonym log = "(log_level \<times> string) list"

record hook_base =
  snapshotName :: string
  lastError :: "js_error option"
  isHooked :: bool
  originalHooks :: "ext_point \<rightharpoonup> callback"

type_synonym llm_client = nat
type_synonym event = nat

record agent =
  callbacks :: "ext_point \<Rightarrow> callback"
  customLLMClient :: "llm_client option"
  isReplay :: bool
  currentLoopIteration :: nat
  events :: "event list"

text \<open>
  The state the hook code works on: the hook object, the mock client of the replay hook,
  the agent, and what the logger has printed.
\<close>

record world =
  hook :: hook_base
  mockLLMClient :: "llm_client option"
  agent :: agent
  logger :: log

definition new_hook :: "string \<Rightarrow> hook_base" where
  "new_hook name =
     \<lparr> snapshotName = name, lastError = None, isHooked = False, originalHooks = Map.empty \<rparr>"

definition say :: "log_level \<Rightarrow> string \<Rightarrow> world \<Rightarrow> world" where
  "say level msg w = w\<lparr> logger := logger w @ [(level, msg)] \<rparr>"

definition hookAgent :: "world \<Rightarrow> world" where
  "hookAgent w =
     (if isHooked (hook w) then say LWarn ''Agent already hooked, skipping'' w
      else
        say LDebug (''Hooked into agent: '' @ snapshotName (hook w))
          (w\<lparr> hook := (hook w)\<lparr> originalHooks := (\<lambda>p. Some (callbacks (agent w) p)),
                                  isHooked := True \<rparr>,
               agent := (agent w)\<lparr> callbacks := Instrumented \<rparr> \<rparr>))"

text \<open>\<^verbatim>\<open>Object.assign(this.agent, this.originalHooks)\<close> writes the properties the backup has.\<close>

definition unhookAgent :: "world \<Rightarrow> world" where
  "unhookAgent w =
     (if \<not> isHooked (hook w) then w
      else
        say LDebug (''Unhooked from agent: '' @ snapshotName (hook w))
          (w\<lparr> agent := (agent w)\<lparr> callbacks :=
                   (\<lambda>p. case originalHooks (hook w) p of
                           Some c \<Rightarrow> c
                         | None \<Rightarrow> callbacks (agent w) p) \<rparr>,
               hook := (hook w)\<lparr> isHooked := False, originalHooks := Map.empty \<rparr> \<rparr>))"

definition hasError :: "world \<Rightarrow> bool" where
  "hasError w = (lastError (hook w) \<noteq> None)"

definition getLastError :: "world \<Rightarrow> js_error option" where
  "getLastError w = lastError (hook w)"

definition clearError :: "world \<Rightarrow> world" where
  "clearError w = w\<lparr> hook := (hook w)\<lparr> lastError := None \<rparr> \<rparr>"

text \<open>
  A callback of the hook, as \<^verbatim>\<open>safeHook\<close> receives it: code that runs on the state
  (it has the hook object as \<^verbatim>\<open>this\<close>), ends by returning a result or by throwing,
  and leaves a state.
\<close>

type_synonym 'a hook_fn = "world \<Rightarrow> 'a outcome \<times> world"

text \<open>
  \<^verbatim>\<open>safeHook(hookFn)\<close>. The awaited \<^verbatim>\<open>hookFn()\<close> runs inside the \<^verbatim>\<open>try\<close>. The result
  is how the promise of \<^verbatim>\<open>safeHook\<close> settles: with the callback's result; with
  \<^verbatim>\<open>undefined\<close> (\<open>None\<close>) after a caught failure, which is stored and logged; or, when
  making an \<^verbatim>\<open>Error\<close> of the caught value throws inside the \<^verbatim>\<open>catch\<close> block, with that
  failure, nothing having been stored.
\<close>

definition safeHook :: "'a hook_fn \<Rightarrow> world \<Rightarrow> 'a option outcome \<times> world" where
  "safeHook hookFn w =
     (case hookFn w of
        (Returns result, w1) \<Rightarrow> (Returns (Some result), w1)
      | (Throws error, w1) \<Rightarrow>
          (case as_error error of
             Throws t \<Rightarrow> (Throws t, w1)
           | Returns e \<Rightarrow>
               let w2 = w1\<lparr> hook := (hook w1)\<lparr> lastError := Some e \<rparr> \<rparr> in
               (Returns None,
                say LError (''Hook execution error in '' @ snapshotName (hook w2) @ '': ''
                              @ message e) w2)))"

text \<open>
  \<^verbatim>\<open>writeStreamingChunks(filePath, chunks)\<close>, given the number of chunks (zero for an
  absent or empty array) and how serialising and writing them ends. It is what a
  callback of a subclass calls: a failed write is stored as the last error, and the
  method returns.
\<close>

definition writeStreamingChunks :: "string \<Rightarrow> nat \<Rightarrow> unit outcome \<Rightarrow> unit hook_fn" where
  "writeStreamingChunks filePath chunks written w =
     (if chunks = 0 then (Returns (), w)
      else
        (case written of
           Returns _ \<Rightarrow>
             (Returns (),
              say LDebug (''Wrote '' @ string_of_nat chunks @ '' streaming chunks to '' @ filePath) w)
         | Throws error \<Rightarrow>
             (case as_error error of
                Throws t \<Rightarrow> (Throws t, w)
              | Returns err \<Rightarrow>
                  let w1 = say LError (''Failed to write streaming chunks: '' @ message err) w in
                  (Returns (), w1\<lparr> hook := (hook w1)\<lparr> lastError := Some err \<rparr> \<rparr>))))"

text \<open>
  The instrumented callbacks of one hook instance, run one after the other, each through
  \<^verbatim>\<open>safeHook\<close> on the state the one before has left.
\<close>

fun run_callbacks :: "'a hook_fn list \<Rightarrow> world \<Rightarrow> 'a option outcome list \<times> world" where
  "run_callbacks [] w = ([], w)"
| "run_callbacks (f # fs) w =
     (let (r, w1) = safeHook f w; (rs, w2) = run_callbacks fs w1 in (r # rs, w2))"

text \<open>The values the callbacks of such a run throw, in the order they occur.\<close>

fun failures :: "'a hook_fn list \<Rightarrow> world \<Rightarrow> thrown list" where
  "failures [] w = []"
| "failures (f # fs) w =
     (case fst (f w) of Throws t \<Rightarrow> [t] | Returns _ \<Rightarrow> []) @ failures fs (snd (safeHook f w))"

text \<open>
  Callbacks that, run from the state \<open>w\<close> on, all return and leave the stored error as
  they find it.
\<close>

fun undisturbed :: "'a hook_fn list \<Rightarrow> world \<Rightarrow> bool" where
  "undisturbed [] w = True"
| "undisturbed (f # fs) w =
     (case f w of
        (Returns r, w1) \<Rightarrow> lastError (hook w1) = lastError (hook w) \<and> undisturbed fs w1
      | (Throws t, w1) \<Rightarrow> False)"

text \<open>A callback that throws, one that returns, and one that clears the stored error.\<close>

definition throwing :: "thrown \<Rightarrow> 'a hook_fn" where
  "throwing t w = (Throws t, w)"

definition returning :: "'a \<Rightarrow> 'a hook_fn" where
  "returning r w = (Returns r, w)"

definition clearing :: "'a \<Rightarrow> 'a hook_fn" where
  "clearing r w = (Returns r, clearError w)"

section \<open>Orchestrator\<close>

subsection \<open>Loop directories\<close>

text \<open>
  The snapshot root on disk, as the calls of \<^verbatim>\<open>countLoops\<close> find it: the path is
  absent (\<^verbatim>\<open>existsSync\<close> is false); or it exists and \<^verbatim>\<open>readdirSync\<close> throws (a
  regular file at the path gives \<^verbatim>\<open>ENOTDIR\<close>); or it is a directory, given by the
  names \<^verbatim>\<open>readdirSync\<close> lists, each with what \<^verbatim>\<open>statSync\<close> does for it: it tells
  whether the entry is a directory, or it throws (a dangling link gives \<^verbatim>\<open>ENOENT\<close>).
\<close>

datatype stat_result = IsDirectory bool | StatFails js_error

type_synonym dir_entries = "(string \<times> stat_result) list"

datatype snapshot_root = Absent | Unreadable js_error | Listing dir_entries

text \<open>\<^verbatim>\<open>s.split('-')\<close>\<close>

fun split_dash :: "string \<Rightarrow> string list" where
  "split_dash [] = [[]]"
| "split_dash (c # cs) =
     (if c = CHR ''-'' then [] # split_dash cs
      else (case split_dash cs of
              [] \<Rightarrow> [[c]]
            | seg # segs \<Rightarrow> (c # seg) # segs))"

text \<open>\<^verbatim>\<open>xs[1]\<close>, which is \<^verbatim>\<open>undefined\<close> (\<open>None\<close>) on a shorter array.\<close>

fun second :: "'a list \<Rightarrow> 'a option" where
  "second (x # y # ys) = Some y"
| "second ys = None"

text \<open>
  A JavaScript number as far as \<^verbatim>\<open>parseInt\<close> can return one: a finite double that is
  an integer (the sign of a zero is not kept: it decides no comparison), an infinity, or
  \<^verbatim>\<open>NaN\<close>.
\<close>

datatype number = Finite int | PosInfinity | NegInfinity | NaN

fun negate :: "number \<Rightarrow> number" where
  "negate (Finite x) = Finite (- x)"
| "negate PosInfinity = NegInfinity"
| "negate NegInfinity = PosInfinity"
| "negate NaN = NaN"

fun bit_length :: "nat \<Rightarrow> nat" where
  "bit_length n = (if n = 0 then 0 else Suc (bit_length (n div 2)))"

declare bit_length.simps [simp del]

text \<open>
  The double nearest to a natural number: the number itself below \<open>2 ^ 53\<close>; above, the
  53 leading bits, rounded by the rest to the nearest, a tie going to the even one; and
  infinity when that is beyond the largest finite double.
\<close>

definition round_to_double :: "nat \<Rightarrow> nat" where
  "round_to_double n =
     (if n < 2 ^ 53 then n
      else
        let e = bit_length n - 53; q = n div 2 ^ e; r = n mod 2 ^ e; half = 2 ^ (e - 1) in
        if half < r \<or> (r = half \<and> odd q) then (q + 1) * 2 ^ e else q * 2 ^ e)"

definition to_number :: "nat \<Rightarrow> number" where
  "to_number n =
     (let m = round_to_double n in if 2 ^ 1024 \<le> m then PosInfinity else Finite (int m))"

text \<open>
  The white space that \<^verbatim>\<open>parseInt\<close> skips at the start of a string, in the UTF-8
  encoding of strings used here: the six ASCII characters, U+00A0, and the three-byte
  characters U+1680, U+2000 to U+200A, U+2028, U+2029, U+202F, U+205F, U+3000 and
  U+FEFF.
\<close>

definition space1 :: "char \<Rightarrow> bool" where
  "space1 a = (a \<in> set [CHR 0x09, CHR 0x0A, CHR 0x0B, CHR 0x0C, CHR 0x0D, CHR 0x20])"

definition space2 :: "char \<Rightarrow> char \<Rightarrow> bool" where
  "space2 a b = (a = CHR 0xC2 \<and> b = CHR 0xA0)"

definition space3 :: "char \<Rightarrow> char \<Rightarrow> char \<Rightarrow> bool" where
  "space3 a b c =
     ((a = CHR 0xE1 \<and> b = CHR 0x9A \<and> c = CHR 0x80) \<or>
      (a = CHR 0xE2 \<and> b = CHR 0x80 \<and>
         c \<in> set [CHR 0x80, CHR 0x81, CHR 0x82, CHR 0x83, CHR 0x84, CHR 0x85, CHR 0x86,
                  CHR 0x87, CHR 0x88, CHR 0x89, CHR 0x8A, CHR 0xA8, CHR 0xA9, CHR 0xAF]) \<or>
      (a = CHR 0xE2 \<and> b = CHR 0x81 \<and> c = CHR 0x9F) \<or>
      (a = CHR 0xE3 \<and> b = CHR 0x80 \<and> c = CHR 0x80) \<or>
      (a = CHR 0xEF \<and> b = CHR 0xBB \<and> c = CHR 0xBF))"

fun skip_space :: "string \<Rightarrow> string" where
  "skip_space (a # b # c # cs) =
     (if space1 a then skip_space (b # c # cs)
      else if space2 a b then skip_space (c # cs)
      else if space3 a b c then skip_space cs
      else a # b # c # cs)"
| "skip_space [a, b] =
     (if space1 a then skip_space [b] else if space2 a b then [] else [a, b])"
| "skip_space [a] = (if space1 a then [] else [a])"
| "skip_space [] = []"

definition digit_value :: "char \<Rightarrow> nat option" where
  "digit_value c = map_of (zip ''0123456789'' [0 ..< 10]) c"

fun digits_value :: "nat \<Rightarrow> string \<Rightarrow> nat" where
  "digits_value acc [] = acc"
| "digits_value acc (c # cs) =
     (case digit_value c of
        None \<Rightarrow> acc
      | Some d \<Rightarrow> digits_value (10 * acc + d) cs)"

text \<open>
  \<^verbatim>\<open>parseInt(s, 10)\<close>: leading white space is skipped, a sign is read, and the longest
  run of decimal digits that follows is read as an integer; the result is the double
  nearest to it (the conversion is exact and correctly rounded for any number of
  digits, as in V8). With no digit there the result is \<^verbatim>\<open>NaN\<close>, as it is for the
  argument \<^verbatim>\<open>undefined\<close> (\<open>None\<close>).
\<close>

definition parse_digits :: "string \<Rightarrow> number" where
  "parse_digits s =
     (case s of
        [] \<Rightarrow> NaN
      | c # cs \<Rightarrow> (if digit_value c = None then NaN else to_number (digits_value 0 s)))"

definition parseInt :: "string option \<Rightarrow> number" where
  "parseInt arg =
     (case arg of
        None \<Rightarrow> NaN
      | Some s \<Rightarrow>
          (case skip_space s of
             [] \<Rightarrow> NaN
           | c # cs \<Rightarrow>
               if c = CHR ''-'' then negate (parse_digits cs)
               else if c = CHR ''+'' then parse_digits cs
               else parse_digits (c # cs)))"

definition loop_number :: "string \<Rightarrow> number" where
  "loop_number name = parseInt (second (split_dash name))"

text \<open>
  The comparator \<^verbatim>\<open>(a, b) => numA - numB\<close>, read by \<^verbatim>\<open>sort\<close>: \<open>comes_after a b\<close> is
  a positive result, \<^verbatim>\<open>a\<close> is to be placed after \<^verbatim>\<open>b\<close>. The difference of two finite
  doubles has the sign of their exact difference; a difference with a \<^verbatim>\<open>NaN\<close>, and
  that of an infinity with itself, is \<^verbatim>\<open>NaN\<close>, which \<^verbatim>\<open>sort\<close> reads as \<^verbatim>\<open>+0\<close>.
\<close>

fun positive_difference :: "number \<Rightarrow> number \<Rightarrow> bool" where
  "positive_difference (Finite numA) (Finite numB) = (numA - numB > 0)"
| "positive_difference PosInfinity (Finite numB) = True"
| "positive_difference PosInfinity NegInfinity = True"
| "positive_difference (Finite numA) NegInfinity = True"
| "positive_difference numA numB = False"

definition comes_after :: "string \<Rightarrow> string \<Rightarrow> bool" where
  "comes_after a b = positive_difference (loop_number a) (loop_number b)"

text \<open>
  \<^verbatim>\<open>Array.prototype.sort\<close> under this comparator. The sort is stable, and where the
  comparator is a consistent ordering of the names its result is determined: it is that
  of a stable insertion sort. That is so when no name has the number \<^verbatim>\<open>NaN\<close>, and
  when all have it (every comparison is then \<^verbatim>\<open>+0\<close>). Otherwise the language leaves
  the order to the implementation: it is the parameter \<open>engine\<close>, of which the language
  guarantees that it rearranges the array.
\<close>

fun insert_sorted :: "string \<Rightarrow> string list \<Rightarrow> string list" where
  "insert_sorted a [] = [a]"
| "insert_sorted a (b # bs) = (if comes_after a b then b # insert_sorted a bs else a # b # bs)"

definition consistent :: "string list \<Rightarrow> bool" where
  "consistent names =
     (list_all (\<lambda>d. loop_number d \<noteq> NaN) names \<or> list_all (\<lambda>d. loop_number d = NaN) names)"

definition sort_loops :: "(string list \<Rightarrow> string list) \<Rightarrow> string list \<Rightarrow> string list" where
  "sort_loops engine names =
     (if consistent names then foldr insert_sorted names [] else engine names)"

text \<open>
  The \<^verbatim>\<open>filter\<close> of \<^verbatim>\<open>countLoops\<close>: \<^verbatim>\<open>statSync\<close> is called for the names that start
  with \<^verbatim>\<open>loop-\<close>, in the order of the listing, and the first call that throws ends the
  enumeration with its error.
\<close>

fun filter_loops :: "dir_entries \<Rightarrow> js_error + string list" where
  "filter_loops [] = Inr []"
| "filter_loops ((dir, st) # rest) =
     (if starts_with ''loop-'' dir
      then (case st of
              StatFails e \<Rightarrow> Inl e
            | IsDirectory is_dir \<Rightarrow>
                (case filter_loops rest of
                   Inl e \<Rightarrow> Inl e
                 | Inr dirs \<Rightarrow> Inr (if is_dir then dir # dirs else dirs)))
      else filter_loops rest)"

definition loopDirs :: "(string list \<Rightarrow> string list) \<Rightarrow> dir_entries \<Rightarrow> js_error + string list" where
  "loopDirs engine entries =
     (case filter_loops entries of
        Inl e \<Rightarrow> Inl e
      | Inr dirs \<Rightarrow> Inr (sort_loops engine dirs))"

definition countLoops :: "(string list \<Rightarrow> string list) \<Rightarrow> snapshot_root \<Rightarrow> js_error + nat" where
  "countLoops engine root =
     (case root of
        Absent \<Rightarrow> Inr 0
      | Unreadable e \<Rightarrow> Inl e
      | Listing entries \<Rightarrow>
          (case loopDirs engine entries of
             Inl e \<Rightarrow> Inl e
           | Inr dirs \<Rightarrow> Inr (length dirs)))"

text \<open>\<^verbatim>\<open>fs.existsSync(this.snapshotPath) && this.countLoops() > 0\<close>\<close>

definition snapshotExists :: "(string list \<Rightarrow> string list) \<Rightarrow> snapshot_root \<Rightarrow> js_error + bool" where
  "snapshotExists engine root =
     (if root = Absent then Inr False
      else (case countLoops engine root of
              Inl e \<Rightarrow> Inl e
            | Inr n \<Rightarrow> Inr (n > 0)))"

subsection \<open>Options\<close>

record verification_options =
  verifyLLMRequests :: "bool option"
  verifyEventStreams :: "bool option"
  verifyToolCalls :: "bool option"

record verification =
  v_verifyLLMRequests :: bool
  v_verifyEventStreams :: bool
  v_verifyToolCalls :: bool

record agent_snapshot_options =
  o_updateSnapshots :: "bool option"
  o_normalizerConfig :: "normalizer_config option"
  o_verification :: "verification_options option"

record test_run_config =
  c_updateSnapshots :: "bool option"
  c_normalizerConfig :: "normalizer_config option"
  c_verification :: "verification_options option"

record agent_snapshot =
  snapshotPath :: string
  snapshot_name :: string
  options :: agent_snapshot_options

text \<open>\<^verbatim>\<open>a?.f\<close> and \<^verbatim>\<open>x ?? y\<close>\<close>

definition opt_field :: "('a \<Rightarrow> 'b option) \<Rightarrow> 'a option \<Rightarrow> 'b option" where
  "opt_field f a = (case a of None \<Rightarrow> None | Some x \<Rightarrow> f x)"

definition or_else :: "'a option \<Rightarrow> 'a \<Rightarrow> 'a" where
  "or_else x y = (case x of None \<Rightarrow> y | Some v \<Rightarrow> v)"

definition or_opt :: "'a option \<Rightarrow> 'a option \<Rightarrow> 'a option" where
  "or_opt x y = (case x of None \<Rightarrow> y | Some v \<Rightarrow> Some v)"

definition mergeVerificationSettings ::
  "agent_snapshot \<Rightarrow> verification_options option \<Rightarrow> verification" where
  "mergeVerificationSettings self configVerification = \<lparr>
     v_verifyLLMRequests =
       or_else (or_opt (opt_field verifyLLMRequests configVerification)
                  (opt_field verifyLLMRequests (o_verification (options self)))) True,
     v_verifyEventStreams =
       or_else (or_opt (opt_field verifyEventStreams configVerification)
                  (opt_field verifyEventStreams (o_verification (options self)))) True,
     v_verifyToolCalls =
       or_else (or_opt (opt_field verifyToolCalls configVerification)
                  (opt_field verifyToolCalls (o_verification (options self)))) True \<rparr>"

record hook_setup_options =
  s_updateSnapshots :: bool
  s_normalizerConfig :: "normalizer_config option"
  s_verification :: verification

subsection \<open>Replaying a snapshot\<close>

text \<open>
  \<^verbatim>\<open>test\<close> calls code that is outside these sources: the replay hook's \<^verbatim>\<open>setup\<close>,
  the agent's \<^verbatim>\<open>run\<close>, and the snapshot manager's \<^verbatim>\<open>cleanupAllActualFiles\<close>.
  Each is a parameter: a function that takes the state, ends by returning or by
  throwing, and leaves a state. The input of the run is part of \<open>agent_run\<close>. With them
  comes the order in which the engine's \<^verbatim>\<open>sort\<close> leaves an array whose comparator is
  not consistent.
\<close>

record 'r collaborators =
  hook_setup :: "string \<Rightarrow> nat \<Rightarrow> hook_setup_options \<Rightarrow> world \<Rightarrow> unit outcome \<times> world"
  agent_run :: "world \<Rightarrow> 'r outcome \<times> world"
  cleanupAllActualFiles :: "string \<Rightarrow> world \<Rightarrow> unit outcome \<times> world"
  array_sort :: "string list \<Rightarrow> string list"

text \<open>The result of \<^verbatim>\<open>test\<close>; the elapsed wall-clock time of \<^verbatim>\<open>meta\<close> is left out.\<close>

record 'r snapshot_test_result =
  response :: 'r
  result_events :: "event list"
  meta_snapshotName :: string
  meta_loopCount :: nat

text \<open>
  What \<^verbatim>\<open>test\<close> throws: the two errors it creates itself, told apart from whatever
  a collaborator or the file system threw or the hook stored.
\<close>

datatype test_failure =
    SnapshotNotFound string
  | LoopCountMismatch nat nat
  | Raised thrown

fun failure_value :: "test_failure \<Rightarrow> thrown" where
  "failure_value (SnapshotNotFound path) =
     ThrownError (new_Error
       (''Snapshot not found at '' @ path @ ''. Generate it first using .generate()''))"
| "failure_value (LoopCountMismatch executedLoops loopCount) =
     ThrownError (new_Error
       (''Loop count mismatch: executed '' @ string_of_nat executedLoops
          @ '' but snapshot has '' @ string_of_nat loopCount @ '' loops''))"
| "failure_value (Raised t) = t"

text \<open>\<^verbatim>\<open>if (hook.hasError()) { throw hook.getLastError()!; }\<close>\<close>

definition stored_error :: "world \<Rightarrow> test_failure option" where
  "stored_error w =
     (if hasError w
      then Some (Raised (case getLastError w of
                           Some e \<Rightarrow> ThrownError e
                         | None \<Rightarrow> ThrownValue ''null''))
      else None)"

text \<open>
  The first half of \<^verbatim>\<open>test\<close> after the existence check: the options handed to the
  hook's \<^verbatim>\<open>setup\<close>, what has been logged when the loops are counted, and the state in
  which the \<^verbatim>\<open>try\<close> block starts, with the hook object just constructed.
\<close>

definition resolve_updateSnapshots :: "agent_snapshot \<Rightarrow> test_run_config option \<Rightarrow> bool" where
  "resolve_updateSnapshots self config =
     or_else (or_opt (opt_field c_updateSnapshots config) (o_updateSnapshots (options self))) False"

definition setup_options :: "agent_snapshot \<Rightarrow> test_run_config option \<Rightarrow> hook_setup_options" where
  "setup_options self config = \<lparr>
     s_updateSnapshots = resolve_updateSnapshots self config,
     s_normalizerConfig =
       or_opt (opt_field c_normalizerConfig config) (o_normalizerConfig (options self)),
     s_verification = mergeVerificationSettings self (opt_field c_verification config) \<rparr>"

definition logged_before_count :: "agent_snapshot \<Rightarrow> test_run_config option \<Rightarrow> log \<Rightarrow> log" where
  "logged_before_count self config lg =
     (let lg1 = lg @ [(LInfo, ''Testing against snapshot: '' @ snapshot_name self)] in
      if resolve_updateSnapshots self config
      then lg1 @ [(LWarn, ''Update mode enabled - snapshots will be updated instead of verified'')]
      else lg1)"

definition replay_start ::
  "agent_snapshot \<Rightarrow> nat \<Rightarrow> test_run_config option \<Rightarrow> agent \<Rightarrow> log \<Rightarrow> world" where
  "replay_start self loopCount config ag lg =
     \<lparr> hook = new_hook (snapshot_name self), mockLLMClient = None, agent = ag,
       logger = logged_before_count self config lg
                  @ [(LInfo, ''Found '' @ string_of_nat loopCount @ '' loops in snapshot'')] \<rparr>"

text \<open>
  \<^verbatim>\<open>this.agent.setCustomLLMClient(mockLLMClient!); this.agent._setIsReplay()\<close>
\<close>

definition enter_replay :: "world \<Rightarrow> world" where
  "enter_replay w =
     w\<lparr> agent := (agent w)\<lparr> customLLMClient := mockLLMClient w, isReplay := True \<rparr> \<rparr>"

text \<open>The \<^verbatim>\<open>try\<close> block of \<^verbatim>\<open>test\<close>.\<close>

definition test_try ::
  "'r collaborators \<Rightarrow> agent_snapshot \<Rightarrow> nat \<Rightarrow> hook_setup_options \<Rightarrow> world
     \<Rightarrow> (test_failure + 'r snapshot_test_result) \<times> world" where
  "test_try ext self loopCount opts w0 =
     (case hook_setup ext (snapshotPath self) loopCount opts w0 of
        (Throws t, w1) \<Rightarrow> (Inl (Raised t), w1)
      | (Returns _, w1) \<Rightarrow>
          (case stored_error w1 of
             Some f \<Rightarrow> (Inl f, w1)
           | None \<Rightarrow>
               (case agent_run ext (enter_replay w1) of
                  (Throws t, w3) \<Rightarrow> (Inl (Raised t), w3)
                | (Returns resp, w3) \<Rightarrow>
                    (case stored_error w3 of
                       Some f \<Rightarrow> (Inl f, w3)
                     | None \<Rightarrow>
                         let evs = events (agent w3);
                             executedLoops = currentLoopIteration (agent w3)
                         in
                         if executedLoops \<noteq> loopCount
                         then (Inl (LoopCountMismatch executedLoops loopCount), w3)
                         else
                           (case cleanupAllActualFiles ext (snapshot_name self) w3 of
                              (Throws t, w4) \<Rightarrow> (Inl (Raised t), w4)
                            | (Returns _, w4) \<Rightarrow>
                                (Inr \<lparr> response = resp, result_events = evs,
                                       meta_snapshotName = snapshot_name self,
                                       meta_loopCount = executedLoops \<rparr>,
                                 say LSuccess ''Test completed successfully'' w4))))))"

text \<open>
  The \<^verbatim>\<open>catch\<close> block: \<^verbatim>\<open>logger.error(`Test failed: ${error}`); throw error\<close>. When
  the template literal cannot convert the caught value, its failure leaves the block in
  place of the caught one.
\<close>

definition test_catch ::
  "(test_failure + 'r snapshot_test_result) \<times> world
     \<Rightarrow> (test_failure + 'r snapshot_test_result) \<times> world" where
  "test_catch tried =
     (case tried of
        (Inr result, w) \<Rightarrow> (Inr result, w)
      | (Inl error, w) \<Rightarrow>
          (case template (failure_value error) of
             Returns text \<Rightarrow> (Inl error, say LError (''Test failed: '' @ text) w)
           | Throws t \<Rightarrow> (Inl (Raised t), w)))"

text \<open>
  \<^verbatim>\<open>test(input, config)\<close> on the agent and the logger, with the snapshot root as it is
  on disk during the call. An error of the file system leaves \<^verbatim>\<open>snapshotExists\<close> or
  \<^verbatim>\<open>countLoops\<close> and the call, both being outside the \<^verbatim>\<open>try\<close>. The \<^verbatim>\<open>finally\<close>
  block unhooks. The result comes with the agent and the logger as the call leaves them.
\<close>

definition test ::
  "'r collaborators \<Rightarrow> agent_snapshot \<Rightarrow> snapshot_root \<Rightarrow> test_run_config option
     \<Rightarrow> agent \<Rightarrow> log \<Rightarrow> (test_failure + 'r snapshot_test_result) \<times> agent \<times> log" where
  "test ext self root config ag lg =
     (case snapshotExists (array_sort ext) root of
        Inl e \<Rightarrow>
          (Inl (Raised (ThrownError e)), ag,
           lg @ [(LInfo, ''Testing against snapshot: '' @ snapshot_name self)])
      | Inr False \<Rightarrow>
          (Inl (SnapshotNotFound (snapshotPath self)), ag,
           lg @ [(LInfo, ''Testing against snapshot: '' @ snapshot_name self)])
      | Inr True \<Rightarrow>
          (case countLoops (array_sort ext) root of
             Inl e \<Rightarrow> (Inl (Raised (ThrownError e)), ag, logged_before_count self config lg)
           | Inr loopCount \<Rightarrow>
               let (res, w2) = test_catch (test_try ext self loopCount (setup_options self config)
                                             (replay_start self loopCount config ag lg));
                   w3 = unhookAgent w2
               in (res, agent w3, logger w3)))"



subsection \<open>Concrete states\<close>

definition idle_agent :: agent where
  "idle_agent = \<lparr> callbacks = (\<lambda>p. Fn 7), customLLMClient = None, isReplay = False,
                  currentLoopIteration = 0, events = [] \<rparr>"

definition fresh_world :: world where
  "fresh_world = \<lparr> hook = new_hook ''case'', mockLLMClient = None, agent = idle_agent,
                   logger = [] \<rparr>"

text \<open>
  A replay whose hook installs itself in \<^verbatim>\<open>setup\<close> and whose run executes two loops;
  the same with a callback of the hook failing during the run, so that the hook has
  stored its error when the run returns; and a snapshot of three loops.
\<close>

definition two_loop_run :: "string collaborators" where
  "two_loop_run = \<lparr>
     hook_setup = (\<lambda>path n opts w. (Returns (), hookAgent w)),
     agent_run = (\<lambda>w. (Returns ''done'', w\<lparr> agent := (agent w)\<lparr> currentLoopIteration := 2 \<rparr> \<rparr>)),
     cleanupAllActualFiles = (\<lambda>name w. (Returns (), w)),
     array_sort = (\<lambda>names. names) \<rparr>"


definition case_snapshot :: agent_snapshot where
  "case_snapshot = \<lparr> snapshotPath = ''/snapshots/case'', snapshot_name = ''case'',
       options = \<lparr> o_updateSnapshots = None, o_normalizerConfig = None,
                   o_verification = None \<rparr> \<rparr>"



text \<open>A regular file where the snapshot directory should be.\<close>

definition regular_file :: snapshot_root where
  "regular_file = Unreadable (JsError ''Error'' ''ENOTDIR: not a directory, scandir'')"

text \<open>A snapshot directory that holds a link \<^verbatim>\<open>loop-1\<close> to nothing.\<close>

definition dangling_link :: snapshot_root where
  "dangling_link =
     Listing [(''loop-1'', StatFails (JsError ''Error'' ''ENOENT: no such file or directory, stat''))]"

section \<open>Properties of the normalizer\<close>

lemma find_append_first:
  "find P (xs @ ys) = (case find P xs of Some x \<Rightarrow> Some x | None \<Rightarrow> find P ys)"
  by (induction xs) auto

lemma find_Some_mem: "find P xs = Some x \<Longrightarrow> x \<in> set xs \<and> P x"
  by (induction xs) (auto split: if_splits)

lemma find_None_all: "find P xs = None \<longleftrightarrow> (\<forall>x \<in> set xs. \<not> P x)"
  by (induction xs) auto

text \<open>
  C1. The scenario of the specification: the object
  \<^verbatim>\<open>{sessionId: "abc123", value: 5}\<close> under the default rules. The rule
  \<^verbatim>\<open>/id$/i\<close> stands before the rule \<^verbatim>\<open>/sessionId/i\<close> in the default list and
  matches the key \<^verbatim>\<open>sessionId\<close> too, so the field becomes \<^verbatim>\<open><<ID>>\<close>, and not
  \<^verbatim>\<open><<SESSION_ID>>\<close> as the scenario says; the field \<^verbatim>\<open>value\<close> passes through.
\<close>

theorem session_id_default_rules:
  "map_option fst (normalize_fuel 2 (new_normalizer no_config) session_heap sn (JRef 0) []) =
     Some (OObject [(''sessionId'', OVal (JStr ''<<ID>>'')), (''value'', OVal (JNum 5))])"
  by (simp add: eval_nat_numeral session_heap_def new_normalizer_def no_config_def DEFAULT_CONFIG_def rule_def normalizeField_def
      shouldIgnoreField_def set_prop_def member_path_def regex_ends_ci_def regex_contains_ci_def ends_with_def lower_def to_lower_def)

text \<open>
  C6. Precedence in \<^verbatim>\<open>normalizeField\<close> of a normalizer constructed from a caller's
  configuration: the custom normalizers are tried first and the first that matches
  decides; otherwise the first matching rule of the list made of the default rules
  followed by the caller's rules decides. Hence, for a field that no custom normalizer
  matches and that both some default rule and some caller rule match, the replacement
  used is that of a default rule, the first one that matches.
\<close>

theorem normalizeField_precedence:
  "normalizeField (new_normalizer config) key val path =
     (case find (\<lambda>c. matchesPattern (cn_pattern c) key path) (customNormalizers config) of
        Some c \<Rightarrow> normalizer c val path
      | None \<Rightarrow>
          (case find (\<lambda>r. matchesPattern (pattern r) key path)
                  (fieldsToNormalize DEFAULT_CONFIG @ fieldsToNormalize config) of
             Some r \<Rightarrow> replacement r
           | None \<Rightarrow> OVal JUndefined))
   \<and> (find (\<lambda>c. matchesPattern (cn_pattern c) key path) (customNormalizers config) = None \<longrightarrow>
        b \<in> set (fieldsToNormalize DEFAULT_CONFIG) \<longrightarrow> matchesPattern (pattern b) key path \<longrightarrow>
        u \<in> set (fieldsToNormalize config) \<longrightarrow> matchesPattern (pattern u) key path \<longrightarrow>
        (\<exists>d \<in> set (fieldsToNormalize DEFAULT_CONFIG).
           find (\<lambda>r. matchesPattern (pattern r) key path) (fieldsToNormalize DEFAULT_CONFIG) = Some d \<and>
           normalizeField (new_normalizer config) key val path = replacement d))"
proof -
  let ?mc = "\<lambda>c. matchesPattern (cn_pattern c) key path"
  let ?mr = "\<lambda>r. matchesPattern (pattern r) key path"
  have custom: "customNormalizers (new_normalizer config) = customNormalizers config"
    by (simp add: new_normalizer_def DEFAULT_CONFIG_def)
  have rules: "fieldsToNormalize (new_normalizer config) =
      fieldsToNormalize DEFAULT_CONFIG @ fieldsToNormalize config"
    by (simp add: new_normalizer_def)
  have first: "normalizeField (new_normalizer config) key val path =
     (case find ?mc (customNormalizers config) of
        Some c \<Rightarrow> normalizer c val path
      | None \<Rightarrow>
          (case find ?mr (fieldsToNormalize DEFAULT_CONFIG @ fieldsToNormalize config) of
             Some r \<Rightarrow> replacement r
           | None \<Rightarrow> OVal JUndefined))"
    unfolding normalizeField_def custom rules ..
  have second: "\<exists>d \<in> set (fieldsToNormalize DEFAULT_CONFIG).
           find ?mr (fieldsToNormalize DEFAULT_CONFIG) = Some d \<and>
           normalizeField (new_normalizer config) key val path = replacement d"
    if none: "find ?mc (customNormalizers config) = None"
      and b: "b \<in> set (fieldsToNormalize DEFAULT_CONFIG)" "matchesPattern (pattern b) key path"
  proof -
    from b have "find ?mr (fieldsToNormalize DEFAULT_CONFIG) \<noteq> None"
      by (auto simp: find_None_all)
    then obtain d where d: "find ?mr (fieldsToNormalize DEFAULT_CONFIG) = Some d"
      by auto
    then have "d \<in> set (fieldsToNormalize DEFAULT_CONFIG)"
      by (simp add: find_Some_mem)
    moreover have "normalizeField (new_normalizer config) key val path = replacement d"
      by (simp add: first none find_append_first d)
    ultimately show ?thesis using d by blast
  qed
  show ?thesis using first second by blast
qed

theorem normalizeField_precedence_witness:
  "find (\<lambda>c. matchesPattern (cn_pattern c) ''requestId'' ''requestId'')
      (customNormalizers request_config) = None \<and>
   rule (PRegExp (regex_ends_ci ''id'')) ''<<ID>>'' \<in> set (fieldsToNormalize DEFAULT_CONFIG) \<and>
   matchesPattern (PRegExp (regex_ends_ci ''id'')) ''requestId'' ''requestId'' \<and>
   hd (fieldsToNormalize request_config) \<in> set (fieldsToNormalize request_config) \<and>
   matchesPattern (pattern (hd (fieldsToNormalize request_config))) ''requestId'' ''requestId'' \<and>
   normalizeField (new_normalizer request_config) ''requestId'' (JStr ''r-1'') ''requestId''
     = OVal (JStr ''<<ID>>'')"
  using normalizeField_precedence
    [of request_config "''requestId''" "JStr ''r-1''" "''requestId''"
        "rule (PRegExp (regex_ends_ci ''id'')) ''<<ID>>''" "hd (fieldsToNormalize request_config)"]
  by (simp add: request_config_def DEFAULT_CONFIG_def rule_def regex_ends_ci_def
      regex_contains_ci_def ends_with_def lower_def to_lower_def)

text \<open>
  C10. A member of an object that is not ignored, and whose first matching custom
  normalizer returns \<^verbatim>\<open>undefined\<close>, or that no custom normalizer matches and whose
  first matching rule has no replacement: \<^verbatim>\<open>normalizeField\<close> returns
  \<^verbatim>\<open>undefined\<close>, and the loop assigns to the key what the recursive call of
  \<^verbatim>\<open>normalize\<close> on the member's original value and path returns, exactly as for a
  member that nothing matches.
\<close>

theorem undefined_replacement_is_no_match:
  assumes "\<not> shouldIgnoreField cfg key (member_path path key)"
    and "(\<exists>c. find (\<lambda>c. matchesPattern (cn_pattern c) key (member_path path key))
                (customNormalizers cfg) = Some c \<and>
              normalizer c val (member_path path key) = OVal JUndefined) \<or>
         (find (\<lambda>c. matchesPattern (cn_pattern c) key (member_path path key))
                (customNormalizers cfg) = None \<and>
          (\<exists>r. find (\<lambda>r. matchesPattern (pattern r) key (member_path path key))
                  (fieldsToNormalize cfg) = Some r \<and>
               replacement r = OVal JUndefined))"
  shows "normalizeField cfg key val (member_path path key) = OVal JUndefined \<and>
         loop_entries (normalize_fuel n cfg h) cfg path result ((key, val) # entries) sn =
           (case normalize_fuel n cfg h sn val (member_path path key) of
              None \<Rightarrow> None
            | Some (r, sn1) \<Rightarrow>
                loop_entries (normalize_fuel n cfg h) cfg path (set_prop result key r) entries sn1)"
proof -
  have nf: "normalizeField cfg key val (member_path path key) = OVal JUndefined"
    using assms(2) by (auto simp: normalizeField_def)
  show ?thesis
    using assms(1) nf by simp
qed

theorem undefined_replacement_is_no_match_witness:
  "\<not> shouldIgnoreField (new_normalizer note_config) ''note'' (member_path [] ''note'') \<and>
   find (\<lambda>c. matchesPattern (cn_pattern c) ''note'' (member_path [] ''note''))
      (customNormalizers (new_normalizer note_config)) = None \<and>
   map_option replacement
     (find (\<lambda>r. matchesPattern (pattern r) ''note'' (member_path [] ''note''))
        (fieldsToNormalize (new_normalizer note_config))) = Some (OVal JUndefined) \<and>
   loop_entries (normalize_fuel 2 (new_normalizer note_config) note_heap)
      (new_normalizer note_config) [] [] [(''note'', JRef 2)] {0}
     = Some ([(''note'', OObject [(''id'', OVal (JStr ''<<ID>>''))])], {0, 2})"
proof -
  let ?cfg = "new_normalizer note_config"
  have ig: "\<not> shouldIgnoreField ?cfg ''note'' (member_path [] ''note'')"
    by (simp add: shouldIgnoreField_def new_normalizer_def note_config_def DEFAULT_CONFIG_def)
  have cn: "find (\<lambda>c. matchesPattern (cn_pattern c) ''note'' (member_path [] ''note''))
      (customNormalizers ?cfg) = None"
    by (simp add: new_normalizer_def note_config_def DEFAULT_CONFIG_def)
  have fr: "find (\<lambda>r. matchesPattern (pattern r) ''note'' (member_path [] ''note''))
        (fieldsToNormalize ?cfg) =
      Some \<lparr> pattern = PString ''note'', replacement = OVal JUndefined, deep = False \<rparr>"
    by (simp add: new_normalizer_def note_config_def DEFAULT_CONFIG_def rule_def member_path_def
        regex_ends_ci_def regex_contains_ci_def ends_with_def lower_def to_lower_def)
  have inner: "normalize_fuel 2 ?cfg note_heap {0} (JRef 2) (member_path [] ''note'') =
      Some (OObject [(''id'', OVal (JStr ''<<ID>>''))], {0, 2})"
    by (simp add: eval_nat_numeral note_heap_def new_normalizer_def note_config_def
        DEFAULT_CONFIG_def rule_def normalizeField_def shouldIgnoreField_def set_prop_def
        member_path_def regex_ends_ci_def regex_contains_ci_def ends_with_def lower_def
        to_lower_def insert_commute)
  have "loop_entries (normalize_fuel 2 ?cfg note_heap) ?cfg [] [] [(''note'', JRef 2)] {0}
     = Some ([(''note'', OObject [(''id'', OVal (JStr ''<<ID>>''))])], {0, 2})"
    using undefined_replacement_is_no_match
      [of ?cfg "''note''" "[]" "JRef 2" 2 note_heap "[]" "[]" "{0}"] ig cn fr
    by (simp add: inner set_prop_def)
  then show ?thesis using ig cn fr by simp
qed

text \<open>
  C7. An object whose property with the empty key is the object itself. The path of that
  property is the empty string again, so the recursive call takes itself for a top-level
  call and empties the set of seen objects before it looks the object up: the cycle is
  never detected, and \<^verbatim>\<open>normalize\<close> does not return, whatever depth of recursion
  is allowed and whatever the set held before.
\<close>

theorem empty_key_cycle_never_returns:
  "normalize_fuel n (new_normalizer no_config) self_heap sn (JRef 0) [] = None"
proof (induction n arbitrary: sn)
  case 0
  show ?case by simp
next
  case (Suc n)
  have nf: "normalizeField (new_normalizer no_config) [] (JRef 0) [] = OVal JUndefined"
    by (simp add: new_normalizer_def no_config_def DEFAULT_CONFIG_def rule_def normalizeField_def
      regex_ends_ci_def regex_contains_ci_def ends_with_def lower_def to_lower_def)
  have ig: "\<not> shouldIgnoreField (new_normalizer no_config) [] []"
    by (simp add: shouldIgnoreField_def new_normalizer_def no_config_def DEFAULT_CONFIG_def)
  have at0: "self_heap 0 = NObject [([], JRef 0)]"
    by (simp add: self_heap_def)
  show ?case
    by (simp add: at0 nf ig member_path_def Suc.IH)
qed

text \<open>
  For comparison, a cycle through a member with a name: the second encounter of the
  object is replaced by the marker.
\<close>

lemma named_cycle_marked:
  "normalize_fuel 2 (new_normalizer no_config) named_cycle_heap {} (JRef 0) [] =
     Some (OObject [(''self'', OVal (JStr ''[Circular]''))], {0})"
  by code_simp

subsection \<open>Results are normal forms\<close>

text \<open>A call that returns within some depth of recursion returns the same within any greater.\<close>

lemma map_items_mono:
  assumes "\<And>s x p r. rec s x p = Some r \<Longrightarrow> rec' s x p = Some r"
  shows "map_items rec path i items s = Some r \<Longrightarrow> map_items rec' path i items s = Some r"
proof (induction items arbitrary: i s r)
  case Nil
  then show ?case by simp
next
  case (Cons x xs)
  from Cons.prems obtain y s1 ys s2 where
    a: "rec s x (item_path path i) = Some (y, s1)"
    and b: "map_items rec path (Suc i) xs s1 = Some (ys, s2)"
    and r: "r = (y # ys, s2)"
    by (auto split: option.splits)
  show ?case
    using assms [OF a] Cons.IH [OF b] r by simp
qed

lemma loop_entries_mono:
  assumes "\<And>s x p r. rec s x p = Some r \<Longrightarrow> rec' s x p = Some r"
  shows "loop_entries rec cfg path acc entries s = Some r
           \<Longrightarrow> loop_entries rec' cfg path acc entries s = Some r"
proof (induction entries arbitrary: acc s r)
  case Nil
  then show ?case by simp
next
  case (Cons e es)
  obtain key val where e: "e = (key, val)" by (cases e)
  show ?case
  proof (cases "shouldIgnoreField cfg key (member_path path key)
                \<or> normalizeField cfg key val (member_path path key) \<noteq> OVal JUndefined")
    case True
    then show ?thesis
      using Cons.prems Cons.IH unfolding e by (auto simp: Let_def split: if_splits)
  next
    case False
    with Cons.prems obtain y s1 where
      a: "rec s val (member_path path key) = Some (y, s1)"
      and b: "loop_entries rec cfg path (set_prop acc key y) es s1 = Some r"
      unfolding e by (auto simp: Let_def split: option.splits)
    show ?thesis
      using False assms [OF a] Cons.IH [OF b] unfolding e by (simp add: Let_def)
  qed
qed

lemma normalize_fuel_Suc:
  "normalize_fuel n cfg h s x p = Some r \<Longrightarrow> normalize_fuel (Suc n) cfg h s x p = Some r"
proof (induction n arbitrary: s x p r)
  case 0
  then show ?case by simp
next
  case (Suc n)
  have step: "\<And>s x p r. normalize_fuel n cfg h s x p = Some r
      \<Longrightarrow> normalize_fuel (Suc n) cfg h s x p = Some r"
    by (rule Suc.IH)
  show ?case
  proof (cases x)
    case (JRef a)
    let ?sn = "if p = [] then {} else s"
    show ?thesis
    proof (cases "a \<in> ?sn")
      case True
      with Suc.prems JRef show ?thesis by (simp add: Let_def)
    next
      case False
      show ?thesis
      proof (cases "h a")
        case (NArray items)
        with Suc.prems JRef False obtain ys s' where
          m: "map_items (normalize_fuel n cfg h) p 0 items (insert a ?sn) = Some (ys, s')"
          and r: "r = (OArray ys, s')"
          by (auto simp: Let_def split: if_splits)
        have "map_items (normalize_fuel (Suc n) cfg h) p 0 items (insert a ?sn) = Some (ys, s')"
          using map_items_mono [OF step m] .
        then show ?thesis
          using JRef False NArray r by (simp add: Let_def del: normalize_fuel.simps(2)) 
            (subst normalize_fuel.simps(2), simp add: Let_def del: normalize_fuel.simps(2))
      next
        case (NObject entries)
        with Suc.prems JRef False obtain ys s' where
          m: "loop_entries (normalize_fuel n cfg h) cfg p [] entries (insert a ?sn) = Some (ys, s')"
          and r: "r = (OObject ys, s')"
          by (auto simp: Let_def split: if_splits)
        have "loop_entries (normalize_fuel (Suc n) cfg h) cfg p [] entries (insert a ?sn) = Some (ys, s')"
          using loop_entries_mono [OF step m] .
        then show ?thesis
          using JRef False NObject r by (simp add: Let_def del: normalize_fuel.simps(2)) 
            (subst normalize_fuel.simps(2), simp add: Let_def del: normalize_fuel.simps(2))
      qed
    qed
  qed (use Suc.prems in \<open>simp_all add: Let_def\<close>)
qed

lemma normalize_fuel_mono:
  "normalize_fuel n cfg h s x p = Some r \<Longrightarrow> n \<le> m \<Longrightarrow> normalize_fuel m cfg h s x p = Some r"
  by (induction m) (auto simp: le_Suc_eq dest: normalize_fuel_Suc simp del: normalize_fuel.simps)

lemma normalize_returns_unique:
  assumes "normalize_returns cfg h s x t" and "normalize_returns cfg h s x t'"
  shows "t = t'"
proof -
  from assms obtain n sn n' sn' where
    a: "normalize_fuel n cfg h s x [] = Some (t, sn)"
    and b: "normalize_fuel n' cfg h s x [] = Some (t', sn')"
    by (auto simp: normalize_returns_def)
  have "normalize_fuel (max n n') cfg h s x [] = Some (t, sn)"
    using normalize_fuel_mono [OF a] by simp
  moreover have "normalize_fuel (max n n') cfg h s x [] = Some (t', sn')"
    using normalize_fuel_mono [OF b] by simp
  ultimately show ?thesis by simp
qed

text \<open>On an acyclic value every call returns, whatever the path and the objects seen.\<close>

lemma map_items_returns:
  assumes "\<And>x s p. x \<in> set items \<Longrightarrow> \<exists>r. rec s x p = Some r"
  shows "\<exists>r. map_items rec path i items s = Some r"
  using assms
proof (induction items arbitrary: i s)
  case Nil
  show ?case by simp
next
  case (Cons x xs)
  obtain y s1 where a: "rec s x (item_path path i) = Some (y, s1)"
    using Cons.prems [of x s "item_path path i"] by auto
  obtain r where b: "map_items rec path (Suc i) xs s1 = Some r"
    using Cons.IH [of "Suc i" s1] Cons.prems by auto
  show ?case using a b by (cases r) simp
qed

lemma loop_entries_returns:
  assumes "\<And>x s p. x \<in> set (map snd entries) \<Longrightarrow> \<exists>r. rec s x p = Some r"
  shows "\<exists>r. loop_entries rec cfg path acc entries s = Some r"
  using assms
proof (induction entries arbitrary: acc s)
  case Nil
  show ?case by simp
next
  case (Cons e es)
  obtain key val where e: "e = (key, val)" by (cases e)
  have tail: "\<exists>r. loop_entries rec cfg path acc' es s' = Some r" for acc' s'
    using Cons.IH [of acc' s'] Cons.prems by auto
  obtain y s1 where a: "rec s val (member_path path key) = Some (y, s1)"
    using Cons.prems [of val s "member_path path key"] e by auto
  show ?case
    unfolding e using tail a by (simp add: Let_def)
qed

lemma common_bound:
  assumes "\<And>x. x \<in> set xs \<Longrightarrow> \<exists>m. \<forall>n\<ge>m. P n x"
  shows "\<exists>m::nat. \<forall>x \<in> set xs. \<forall>n\<ge>m. P n x"
  using assms
proof (induction xs)
  case Nil
  show ?case by simp
next
  case (Cons x xs)
  obtain m1 where m1: "\<forall>n\<ge>m1. P n x" using Cons.prems [of x] by auto
  obtain m2 where m2: "\<forall>y \<in> set xs. \<forall>n\<ge>m2. P n y" using Cons.IH Cons.prems by auto
  have "\<forall>y \<in> set (x # xs). \<forall>n\<ge>max m1 m2. P n y"
    using m1 m2 by auto
  then show ?case by blast
qed

lemma acyclic_returns:
  assumes "acyclic_value h x"
  shows "\<exists>m. \<forall>n\<ge>m. \<forall>s p. \<exists>r. normalize_fuel n cfg h s x p = Some r"
  using assms
proof (induction rule: acyclic_value.induct)
  case (primitive v)
  have "\<exists>r. normalize_fuel n cfg h s v p = Some r" if pos: "1 \<le> n" for n s p
  proof -
    obtain k where "n = Suc k" using pos by (cases n) auto
    then show ?thesis using primitive by (cases v) (simp_all add: Let_def)
  qed
  then show ?case by blast
next
  case (array a items)
  have "\<exists>m. \<forall>n\<ge>m. \<forall>s p. \<exists>r. normalize_fuel n cfg h s x p = Some r" if "x \<in> set items" for x
    using array.IH that by blast
  from common_bound [of items "\<lambda>n x. \<forall>s p. \<exists>r. normalize_fuel n cfg h s x p = Some r", OF this]
  obtain m where m: "\<forall>x \<in> set items. \<forall>n\<ge>m. \<forall>s p. \<exists>r. normalize_fuel n cfg h s x p = Some r"
    by blast
  have "\<exists>r. normalize_fuel n cfg h s (JRef a) p = Some r" if big: "Suc m \<le> n" for n s p
  proof -
    obtain k where k: "n = Suc k" "m \<le> k" using big by (cases n) auto
    have "\<exists>r. map_items (normalize_fuel k cfg h) p 0 items s' = Some r" for s'
      using m k by (intro map_items_returns) blast
    then obtain r where
      "map_items (normalize_fuel k cfg h) p 0 items (insert a (if p = [] then {} else s)) = Some r"
      by blast
    then show ?thesis
      unfolding k(1) using array.hyps by (simp add: Let_def)
  qed
  then show ?case by blast
next
  case (object a entries)
  have "\<exists>m. \<forall>n\<ge>m. \<forall>s p. \<exists>r. normalize_fuel n cfg h s x p = Some r"
    if "x \<in> set (map snd entries)" for x
    using object.IH that by blast
  from common_bound [of "map snd entries"
      "\<lambda>n x. \<forall>s p. \<exists>r. normalize_fuel n cfg h s x p = Some r", OF this]
  obtain m where m: "\<forall>x \<in> set (map snd entries). \<forall>n\<ge>m. \<forall>s p. \<exists>r.
      normalize_fuel n cfg h s x p = Some r"
    by blast
  have "\<exists>r. normalize_fuel n cfg h s (JRef a) p = Some r" if big: "Suc m \<le> n" for n s p
  proof -
    obtain k where k: "n = Suc k" "m \<le> k" using big by (cases n) auto
    have "\<exists>r. loop_entries (normalize_fuel k cfg h) cfg p [] entries s' = Some r" for s'
      using m k by (intro loop_entries_returns) blast
    then obtain r where
      "loop_entries (normalize_fuel k cfg h) cfg p [] entries
         (insert a (if p = [] then {} else s)) = Some r"
      by blast
    then show ?thesis
      unfolding k(1) using object.hyps by (simp add: Let_def)
  qed
  then show ?case by blast
qed

text \<open>
  The second pass: on a fresh copy of a stable result the loops rebuild the result item
  by item and member by member.
\<close>

inductive_cases fresh_copy_OVal: "fresh_copy h x (OVal v) A"
inductive_cases fresh_copy_OArray: "fresh_copy h x (OArray ts) A"
inductive_cases fresh_copy_OObject: "fresh_copy h x (OObject ms) A"
inductive_cases fresh_copies_Nil: "fresh_copies h xs [] A"
inductive_cases fresh_copies_Cons: "fresh_copies h xs (t # ts) A"

lemma stable_at_mono: "stable_at m cfg path t \<Longrightarrow> m \<le> m' \<Longrightarrow> stable_at m' cfg path t"
  unfolding stable_at_def by (meson order_trans)

lemma items_stable_mono:
  "items_stable m cfg path i ts \<Longrightarrow> m \<le> m' \<Longrightarrow> items_stable m' cfg path i ts"
  by (induction ts arbitrary: i) (auto intro: stable_at_mono)

lemma member_stable_mono:
  "member_stable m cfg path f \<Longrightarrow> m \<le> m' \<Longrightarrow> member_stable m' cfg path f"
  unfolding member_stable_def by (auto intro: stable_at_mono)

lemma members_stable_mono:
  "members_stable m cfg path ms \<Longrightarrow> m \<le> m' \<Longrightarrow> members_stable m' cfg path ms"
  unfolding members_stable_def list_all_iff by (auto intro: member_stable_mono)

lemma normalizeField_no_custom:
  "customNormalizers cfg = [] \<Longrightarrow>
   normalizeField cfg key val path = normalizeField cfg key JUndefined path"
  by (simp add: normalizeField_def)

lemma assign_new: "key \<notin> set (map fst acc) \<Longrightarrow> assign acc key v = acc @ [(key, v)]"
  by (induction acc key v rule: assign.induct) auto

lemma assign_keys:
  "map fst (assign acc key v) =
     (if key \<in> set (map fst acc) then map fst acc else map fst acc @ [key])"
  by (induction acc key v rule: assign.induct) auto

lemma assign_set: "set (assign acc key v) \<subseteq> insert (key, v) (set acc)"
  by (induction acc key v rule: assign.induct) auto

lemma stable_leaf: "stable_at 1 cfg path (OVal v)"
proof -
  have "\<exists>sn'. normalize_fuel n cfg h sn x path = Some (OVal v, sn') \<and> sn' \<subseteq> sn \<union> A"
    if n: "1 \<le> n" and c: "fresh_copy h x (OVal v) A" for n h x A sn
  proof -
    obtain k where k: "n = Suc k" using n by (cases n) auto
    from c have "x = v" and "\<not> is_object v" by (auto elim: fresh_copy_OVal)
    then show ?thesis unfolding k by (cases v) (auto simp: Let_def)
  qed
  then show ?thesis unfolding stable_at_def by blast
qed

lemma map_items_stable:
  assumes "items_stable m cfg path i ts" and "fresh_copies h xs ts A" and "A \<inter> s = {}"
    and "m \<le> n"
  shows "\<exists>s'. map_items (normalize_fuel n cfg h) path i xs s = Some (ts, s') \<and> s' \<subseteq> s \<union> A"
  using assms(1-3)
proof (induction ts arbitrary: xs i s A)
  case Nil
  from Nil.prems(2) have "xs = []" by (auto elim: fresh_copies_Nil)
  then show ?case by simp
next
  case (Cons t ts)
  from Cons.prems(2) obtain x xs' A1 A2 where
    xs: "xs = x # xs'" and c1: "fresh_copy h x t A1" and c2: "fresh_copies h xs' ts A2"
    and d: "A1 \<inter> A2 = {}" and A: "A = A1 \<union> A2"
    by (auto elim: fresh_copies_Cons)
  have st: "stable_at m cfg (item_path path i) t" and rest: "items_stable m cfg path (Suc i) ts"
    using Cons.prems(1) by simp_all
  have "A1 \<inter> s = {}" using Cons.prems(3) A by auto
  with st c1 assms(4) obtain s1 where
    s1: "normalize_fuel n cfg h s x (item_path path i) = Some (t, s1)" "s1 \<subseteq> s \<union> A1"
    unfolding stable_at_def by blast
  have "A2 \<inter> s1 = {}" using s1(2) d Cons.prems(3) A by auto
  from Cons.IH [OF rest c2 this] obtain s2 where
    s2: "map_items (normalize_fuel n cfg h) path (Suc i) xs' s1 = Some (ts, s2)" "s2 \<subseteq> s1 \<union> A2"
    by blast
  have "s2 \<subseteq> s \<union> A" using s1(2) s2(2) A by auto
  then show ?case using s1(1) s2(1) xs by simp
qed

lemma array_stable:
  assumes "items_stable m cfg path 0 ts"
  shows "stable_at (Suc m) cfg path (OArray ts)"
proof -
  have "\<exists>sn'. normalize_fuel n cfg h sn x path = Some (OArray ts, sn') \<and> sn' \<subseteq> sn \<union> A"
    if n: "Suc m \<le> n" and c: "fresh_copy h x (OArray ts) A" and d: "A \<inter> sn = {}"
    for n h x A sn
  proof -
    obtain k where k: "n = Suc k" "m \<le> k" using n by (cases n) auto
    from c obtain a items A0 where
      x: "x = JRef a" and ha: "h a = NArray items" and cs: "fresh_copies h items ts A0"
      and a: "a \<notin> A0" and A: "A = insert a A0"
      by (auto elim: fresh_copy_OArray)
    let ?sn = "if path = [] then {} else sn"
    have "A0 \<inter> insert a ?sn = {}" using a d A by auto
    from map_items_stable [OF assms cs this k(2)] obtain s' where
      s': "map_items (normalize_fuel k cfg h) path 0 items (insert a ?sn) = Some (ts, s')"
      "s' \<subseteq> insert a ?sn \<union> A0"
      by blast
    have "a \<notin> ?sn" using d A by auto
    moreover have "s' \<subseteq> sn \<union> A" using s'(2) A by (auto split: if_splits)
    ultimately show ?thesis
      unfolding k(1) x using ha s'(1) by (simp add: Let_def)
  qed
  then show ?thesis unfolding stable_at_def by blast
qed

lemma loop_entries_stable:
  assumes "customNormalizers cfg = []" and "m \<le> n"
  shows "list_all (member_stable m cfg path) rest \<Longrightarrow> distinct (map fst acc @ map fst rest)
    \<Longrightarrow> map fst entries = map fst rest
    \<Longrightarrow> fresh_copies h (map snd entries) (map snd rest) A \<Longrightarrow> A \<inter> s = {}
    \<Longrightarrow> \<exists>s'. loop_entries (normalize_fuel n cfg h) cfg path acc entries s = Some (acc @ rest, s')
             \<and> s' \<subseteq> s \<union> A"
proof (induction rest arbitrary: acc entries s A)
  case Nil
  then show ?case by simp
next
  case (Cons f rest)
  obtain key t where f: "f = (key, t)" by (cases f)
  from Cons.prems(3) obtain val entries' where
    en: "entries = (key, val) # entries'" and keys: "map fst entries' = map fst rest"
    unfolding f by (cases entries) auto
  from Cons.prems(4) obtain A1 A2 where
    c1: "fresh_copy h val t A1" and c2: "fresh_copies h (map snd entries') (map snd rest) A2"
    and d: "A1 \<inter> A2 = {}" and A: "A = A1 \<union> A2"
    unfolding en f by (auto elim: fresh_copies_Cons)
  let ?cp = "member_path path key"
  have ms: "member_stable m cfg path (key, t)" and rest: "list_all (member_stable m cfg path) rest"
    using Cons.prems(1) f by simp_all
  have key: "key \<noteq> ''__proto__''" and ig: "\<not> shouldIgnoreField cfg key ?cp"
    using ms by (simp_all add: member_stable_def)
  have new: "key \<notin> set (map fst acc)" using Cons.prems(2) f by auto
  have put: "set_prop acc key v = acc @ [(key, v)]" for v
    using key new by (simp add: set_prop_def assign_new)
  have dist: "distinct (map fst (acc @ [(key, t)]) @ map fst rest)"
    using Cons.prems(2) f by simp
  have nf: "normalizeField cfg key val ?cp = normalizeField cfg key JUndefined ?cp"
    by (rule normalizeField_no_custom [OF assms(1)])
  show ?case
  proof (cases "normalizeField cfg key JUndefined ?cp \<noteq> OVal JUndefined")
    case True
    then have t: "t = normalizeField cfg key JUndefined ?cp"
      using ms by (simp add: member_stable_def)
    have "A2 \<inter> s = {}" using Cons.prems(5) A by auto
    from Cons.IH [OF rest dist keys c2 this] obtain s' where
      "loop_entries (normalize_fuel n cfg h) cfg path (acc @ [(key, t)]) entries' s
         = Some ((acc @ [(key, t)]) @ rest, s')" "s' \<subseteq> s \<union> A2"
      by blast
    then show ?thesis
      unfolding en f using True ig nf t put A by (auto simp: Let_def)
  next
    case False
    then have st: "stable_at m cfg ?cp t"
      using ms by (simp add: member_stable_def)
    have "A1 \<inter> s = {}" using Cons.prems(5) A by auto
    with st c1 assms(2) obtain s1 where
      s1: "normalize_fuel n cfg h s val ?cp = Some (t, s1)" "s1 \<subseteq> s \<union> A1"
      unfolding stable_at_def by blast
    have "A2 \<inter> s1 = {}" using s1(2) d Cons.prems(5) A by auto
    from Cons.IH [OF rest dist keys c2 this] obtain s' where
      s': "loop_entries (normalize_fuel n cfg h) cfg path (acc @ [(key, t)]) entries' s1
         = Some ((acc @ [(key, t)]) @ rest, s')" "s' \<subseteq> s1 \<union> A2"
      by blast
    have "s' \<subseteq> s \<union> A" using s1(2) s'(2) A by auto
    then show ?thesis
      unfolding en f using False ig nf put s1(1) s'(1) by (simp add: Let_def)
  qed
qed

lemma object_stable:
  assumes "customNormalizers cfg = []" and "members_stable m cfg path ms"
  shows "stable_at (Suc m) cfg path (OObject ms)"
proof -
  have "\<exists>sn'. normalize_fuel n cfg h sn x path = Some (OObject ms, sn') \<and> sn' \<subseteq> sn \<union> A"
    if n: "Suc m \<le> n" and c: "fresh_copy h x (OObject ms) A" and d: "A \<inter> sn = {}"
    for n h x A sn
  proof -
    obtain k where k: "n = Suc k" "m \<le> k" using n by (cases n) auto
    from c obtain a entries A0 where
      x: "x = JRef a" and ha: "h a = NObject entries" and keys: "map fst entries = map fst ms"
      and cs: "fresh_copies h (map snd entries) (map snd ms) A0"
      and a: "a \<notin> A0" and A: "A = insert a A0"
      by (auto elim: fresh_copy_OObject)
    let ?sn = "if path = [] then {} else sn"
    have d0: "A0 \<inter> insert a ?sn = {}" using a d A by auto
    have all: "list_all (member_stable m cfg path) ms" and dist: "distinct (map fst [] @ map fst ms)"
      using assms(2) by (simp_all add: members_stable_def)
    from loop_entries_stable [OF assms(1) k(2) all dist keys cs d0] obtain s' where
      s': "loop_entries (normalize_fuel k cfg h) cfg path [] entries (insert a ?sn) = Some (ms, s')"
      "s' \<subseteq> insert a ?sn \<union> A0"
      by auto
    have "a \<notin> ?sn" using d A by auto
    moreover have "s' \<subseteq> sn \<union> A" using s'(2) A by (auto split: if_splits)
    ultimately show ?thesis
      unfolding k(1) x using ha s'(1) by (simp add: Let_def)
  qed
  then show ?thesis unfolding stable_at_def by blast
qed

text \<open>
  The first pass: without custom normalizers, whatever \<^verbatim>\<open>normalize\<close> returns is
  stable at the path it was computed for.
\<close>

lemma set_prop_members_stable:
  assumes "members_stable m cfg path acc"
    and "key \<noteq> ''__proto__'' \<Longrightarrow> member_stable m cfg path (key, v)"
  shows "members_stable m cfg path (set_prop acc key v)"
proof (cases "key = ''__proto__''")
  case True
  then show ?thesis using assms(1) by (simp add: set_prop_def)
next
  case False
  have d: "distinct (map fst (assign acc key v))"
    using assms(1) by (simp add: assign_keys members_stable_def)
  have "\<forall>f \<in> set (assign acc key v). member_stable m cfg path f"
    using assign_set [of acc key v] assms(1) assms(2) [OF False]
    by (auto simp: members_stable_def list_all_iff)
  then show ?thesis
    using False d by (simp add: set_prop_def members_stable_def list_all_iff)
qed

lemma map_items_results_stable:
  assumes "\<And>s x p t s'. rec s x p = Some (t, s') \<Longrightarrow> \<exists>m. stable_at m cfg p t"
  shows "map_items rec path i items s = Some (ts, s') \<Longrightarrow> \<exists>m. items_stable m cfg path i ts"
proof (induction items arbitrary: i s ts s')
  case Nil
  then show ?case by auto
next
  case (Cons x xs)
  from Cons.prems obtain y s1 ys s2 where
    a: "rec s x (item_path path i) = Some (y, s1)"
    and b: "map_items rec path (Suc i) xs s1 = Some (ys, s2)"
    and ts: "ts = y # ys"
    by (auto split: option.splits)
  from assms [OF a] obtain m1 where m1: "stable_at m1 cfg (item_path path i) y" by blast
  from Cons.IH [OF b] obtain m2 where m2: "items_stable m2 cfg path (Suc i) ys" by blast
  have "items_stable (max m1 m2) cfg path i (y # ys)"
    using stable_at_mono [OF m1, of "max m1 m2"] items_stable_mono [OF m2, of "max m1 m2"]
    by simp
  then show ?case unfolding ts by blast
qed

lemma loop_entries_results_stable:
  assumes "\<And>s x p t s'. rec s x p = Some (t, s') \<Longrightarrow> \<exists>m. stable_at m cfg p t"
    and "customNormalizers cfg = []"
  shows "members_stable m0 cfg path acc
    \<Longrightarrow> loop_entries rec cfg path acc entries s = Some (res, s')
    \<Longrightarrow> \<exists>m. members_stable m cfg path res"
proof (induction entries arbitrary: acc s m0)
  case Nil
  then show ?case by auto
next
  case (Cons e es)
  obtain key val where e: "e = (key, val)" by (cases e)
  let ?cp = "member_path path key"
  have nf: "normalizeField cfg key val ?cp = normalizeField cfg key JUndefined ?cp"
    by (rule normalizeField_no_custom [OF assms(2)])
  show ?case
  proof (cases "shouldIgnoreField cfg key ?cp")
    case True
    then have "loop_entries rec cfg path acc es s = Some (res, s')"
      using Cons.prems(2) unfolding e by (simp add: Let_def)
    from Cons.IH [OF Cons.prems(1) this] show ?thesis .
  next
    case ig: False
    show ?thesis
    proof (cases "normalizeField cfg key val ?cp \<noteq> OVal JUndefined")
      case True
      then have l: "loop_entries rec cfg path (set_prop acc key (normalizeField cfg key val ?cp))
          es s = Some (res, s')"
        using Cons.prems(2) ig unfolding e by (simp add: Let_def)
      have "member_stable m0 cfg path (key, normalizeField cfg key val ?cp)"
        if "key \<noteq> ''__proto__''"
        using that ig True nf by (simp add: member_stable_def)
      from Cons.IH [OF set_prop_members_stable [OF Cons.prems(1) this] l]
      show ?thesis by simp
    next
      case False
      with Cons.prems(2) ig obtain r s1 where
        a: "rec s val ?cp = Some (r, s1)"
        and l: "loop_entries rec cfg path (set_prop acc key r) es s1 = Some (res, s')"
        unfolding e by (auto simp: Let_def split: option.splits)
      from assms(1) [OF a] obtain m1 where m1: "stable_at m1 cfg ?cp r" by blast
      have acc: "members_stable (max m0 m1) cfg path acc"
        using members_stable_mono [OF Cons.prems(1)] by simp
      have "member_stable (max m0 m1) cfg path (key, r)" if "key \<noteq> ''__proto__''"
        using that ig False nf stable_at_mono [OF m1, of "max m0 m1"]
        by (simp add: member_stable_def)
      from Cons.IH [OF set_prop_members_stable [OF acc this] l]
      show ?thesis by simp
    qed
  qed
qed

lemma normalize_result_stable:
  assumes "customNormalizers cfg = []"
  shows "normalize_fuel n cfg h s x p = Some (t, s') \<Longrightarrow> \<exists>m. stable_at m cfg p t"
proof (induction n arbitrary: s x p t s')
  case 0
  then show ?case by simp
next
  case (Suc n)
  have rec: "\<And>s x p t s'. normalize_fuel n cfg h s x p = Some (t, s')
      \<Longrightarrow> \<exists>m. stable_at m cfg p t"
    by (rule Suc.IH)
  let ?sn = "if p = [] then {} else s"
  show ?case
  proof (cases x)
    case (JRef a)
    show ?thesis
    proof (cases "a \<in> ?sn")
      case True
      then have "t = OVal (JStr ''[Circular]'')"
        using Suc.prems JRef by (simp add: Let_def)
      then show ?thesis using stable_leaf by blast
    next
      case False
      show ?thesis
      proof (cases "h a")
        case (NArray items)
        with Suc.prems JRef False obtain ys where
          m: "map_items (normalize_fuel n cfg h) p 0 items (insert a ?sn) = Some (ys, s')"
          and t: "t = OArray ys"
          by (auto simp: Let_def split: if_splits)
        have "\<exists>m0. items_stable m0 cfg p 0 ys"
        proof (rule map_items_results_stable [OF _ m])
          show "\<exists>m. stable_at m cfg q u"
            if "normalize_fuel n cfg h s0 y q = Some (u, s1)" for s0 y q u s1
            using that by (rule rec)
        qed
        then show ?thesis unfolding t using array_stable by blast
      next
        case (NObject entries)
        with Suc.prems JRef False obtain ys where
          m: "loop_entries (normalize_fuel n cfg h) cfg p [] entries (insert a ?sn) = Some (ys, s')"
          and t: "t = OObject ys"
          by (auto simp: Let_def split: if_splits)
        have init: "members_stable 0 cfg p []" by (simp add: members_stable_def)
        have "\<exists>m0. members_stable m0 cfg p ys"
        proof (rule loop_entries_results_stable [OF _ assms init m])
          show "\<exists>m. stable_at m cfg q u"
            if "normalize_fuel n cfg h s0 y q = Some (u, s1)" for s0 y q u s1
            using that by (rule rec)
        qed
        then show ?thesis unfolding t using object_stable [OF assms] by blast
      qed
    qed
  qed (use Suc.prems stable_leaf in \<open>auto simp: Let_def\<close>)
qed

lemma top_level_reset:
  "normalize_fuel n cfg h s x [] = normalize_fuel n cfg h {} x []"
  by (cases n) (simp_all add: Let_def)

lemma idempotent_without_custom:
  assumes "customNormalizers cfg = []" and "acyclic_value h x"
  shows "\<exists>t. normalize_returns cfg h s x t \<and>
           (\<forall>h' x' A s'. fresh_copy h' x' t A \<longrightarrow> normalize_returns cfg h' s' x' t)"
proof -
  from acyclic_returns [OF assms(2), of cfg] obtain n t sn where
    r: "normalize_fuel n cfg h s x [] = Some (t, sn)"
    by (metis order_refl surj_pair)
  from normalize_result_stable [OF assms(1) r] obtain m where m: "stable_at m cfg [] t"
    by blast
  have "normalize_returns cfg h' s' x' t" if c: "fresh_copy h' x' t A" for h' x' A s'
  proof -
    from m c obtain sn' where "normalize_fuel m cfg h' {} x' [] = Some (t, sn')"
      unfolding stable_at_def by (metis inf_bot_right order_refl)
    then have "normalize_fuel m cfg h' s' x' [] = Some (t, sn')"
      using top_level_reset by metis
    then show ?thesis unfolding normalize_returns_def by blast
  qed
  moreover have "normalize_returns cfg h s x t"
    using r unfolding normalize_returns_def by blast
  ultimately show ?thesis by blast
qed

text \<open>
  Every result without references at its leaves has fresh copies, and under a
  configuration with such replacements and no custom normalizers every result is one.
\<close>

lemma fresh_copy_frame:
  "fresh_copy h x t A \<Longrightarrow> (\<forall>a \<in> A. h' a = h a) \<Longrightarrow> fresh_copy h' x t A"
  "fresh_copies h xs ts A \<Longrightarrow> (\<forall>a \<in> A. h' a = h a) \<Longrightarrow> fresh_copies h' xs ts A"
proof (induction rule: fresh_copy_fresh_copies.inducts)
  case (leaf v)
  then show ?case by (simp add: fresh_copy_fresh_copies.leaf)
next
  case (arr a items ts A)
  then show ?case by (auto intro!: fresh_copy_fresh_copies.arr)
next
  case (obj a entries members A)
  then show ?case by (auto intro!: fresh_copy_fresh_copies.obj)
next
  case none
  show ?case by (rule fresh_copy_fresh_copies.none)
next
  case (more x t A xs ts B)
  then show ?case by (auto intro!: fresh_copy_fresh_copies.more)
qed

lemma fresh_copies_length: "fresh_copies h xs ts A \<Longrightarrow> length xs = length ts"
  by (induction ts arbitrary: xs A) (auto elim: fresh_copies_Nil fresh_copies_Cons)

lemma fresh_copies_exist:
  assumes "\<And>t n. t \<in> set ts \<Longrightarrow> \<exists>h x A. fresh_copy h x t A \<and> finite A \<and> (\<forall>a \<in> A. n \<le> a)"
  shows "\<exists>h xs A. fresh_copies h xs ts A \<and> finite A \<and> (\<forall>a \<in> A. n \<le> a)"
  using assms
proof (induction ts arbitrary: n)
  case Nil
  have "fresh_copies (\<lambda>_. NObject []) [] [] {}" by (rule fresh_copy_fresh_copies.none)
  then show ?case by blast
next
  case (Cons t ts)
  from Cons.prems [of t n] obtain h1 x A1 where
    c1: "fresh_copy h1 x t A1" and f1: "finite A1" and b1: "\<forall>a \<in> A1. n \<le> a"
    by auto
  define n' where "n' = Suc (Max (insert n A1))"
  have mx: "a \<le> Max (insert n A1)" if "a \<in> insert n A1" for a
    using f1 that by (intro Max_ge) auto
  have lt: "\<forall>a \<in> A1. a < n'"
    using mx by (auto simp: n'_def less_Suc_eq_le)
  have nn: "n \<le> n'"
    using mx [of n] by (simp add: n'_def)
  from Cons.IH [of n'] Cons.prems obtain h2 xs A2 where
    c2: "fresh_copies h2 xs ts A2" and f2: "finite A2" and b2: "\<forall>a \<in> A2. n' \<le> a"
    by auto
  have d: "A1 \<inter> A2 = {}" using lt b2 by fastforce
  define h where "h = (\<lambda>a. if a \<in> A1 then h1 a else h2 a)"
  have "fresh_copy h x t A1"
    by (rule fresh_copy_frame(1) [OF c1]) (simp add: h_def)
  moreover have "fresh_copies h xs ts A2"
    by (rule fresh_copy_frame(2) [OF c2]) (use d in \<open>auto simp: h_def\<close>)
  ultimately have "fresh_copies h (x # xs) (t # ts) (A1 \<union> A2)"
    using d by (rule fresh_copy_fresh_copies.more)
  moreover have "finite (A1 \<union> A2)" using f1 f2 by simp
  moreover have "\<forall>a \<in> A1 \<union> A2. n \<le> a" using b1 b2 nn by fastforce
  ultimately show ?case by blast
qed

lemma fresh_copy_exists:
  "plain t \<Longrightarrow> \<exists>h x A. fresh_copy h x t A \<and> finite A \<and> (\<forall>a \<in> A. n \<le> a)"
proof (induction t arbitrary: n)
  case (OVal v)
  then have "fresh_copy (\<lambda>_. NObject []) v (OVal v) {}"
    by (simp add: fresh_copy_fresh_copies.leaf)
  then show ?case by blast
next
  case (OArray ts)
  have "\<exists>h x A. fresh_copy h x t A \<and> finite A \<and> (\<forall>a \<in> A. k \<le> a)" if "t \<in> set ts" for t k
    using OArray that by (simp add: list_all_iff)
  from fresh_copies_exist [of ts "Suc n", OF this] obtain h xs A where
    c: "fresh_copies h xs ts A" and f: "finite A" and b: "\<forall>a \<in> A. Suc n \<le> a"
    by blast
  have n: "n \<notin> A" using b by auto
  have "fresh_copies (h(n := NArray xs)) xs ts A"
    by (rule fresh_copy_frame(2) [OF c]) (use n in auto)
  then have "fresh_copy (h(n := NArray xs)) (JRef n) (OArray ts) (insert n A)"
    using n by (intro fresh_copy_fresh_copies.arr [where items = xs]) simp_all
  moreover have "finite (insert n A)" "\<forall>a \<in> insert n A. n \<le> a"
    using f b by auto
  ultimately show ?case by blast
next
  case (OObject ms)
  have "\<exists>h x A. fresh_copy h x t A \<and> finite A \<and> (\<forall>a \<in> A. k \<le> a)"
    if "t \<in> set (map snd ms)" for t k
  proof -
    from that obtain key where m: "(key, t) \<in> set ms" by auto
    have "plain t" using OObject.prems that by (auto simp: list_all_iff)
    then show ?thesis using OObject.IH [of "(key, t)" t k] m by simp
  qed
  from fresh_copies_exist [of "map snd ms" "Suc n", OF this] obtain h xs A where
    c: "fresh_copies h xs (map snd ms) A" and f: "finite A" and b: "\<forall>a \<in> A. Suc n \<le> a"
    by blast
  have n: "n \<notin> A" using b by auto
  have len: "length xs = length ms" using fresh_copies_length [OF c] by simp
  let ?entries = "zip (map fst ms) xs"
  have k: "map fst ?entries = map fst ms" and v: "map snd ?entries = xs"
    using len by simp_all
  have "fresh_copies (h(n := NObject ?entries)) (map snd ?entries) (map snd ms) A"
    unfolding v by (rule fresh_copy_frame(2) [OF c]) (use n in auto)
  then have "fresh_copy (h(n := NObject ?entries)) (JRef n) (OObject ms) (insert n A)"
    using n k by (intro fresh_copy_fresh_copies.obj [where entries = ?entries]) simp_all
  moreover have "finite (insert n A)" "\<forall>a \<in> insert n A. n \<le> a"
    using f b by auto
  ultimately show ?case by blast
qed

lemma normalizeField_plain:
  assumes "customNormalizers cfg = []" and "plain_rules cfg"
  shows "plain (normalizeField cfg key val path)"
proof (cases "find (\<lambda>r. matchesPattern (pattern r) key path) (fieldsToNormalize cfg)")
  case None
  then show ?thesis using assms(1) by (simp add: normalizeField_def)
next
  case (Some r)
  then have "r \<in> set (fieldsToNormalize cfg)" by (simp add: find_Some_mem)
  then have "plain (replacement r)" using assms(2) by (simp add: plain_rules_def list_all_iff)
  then show ?thesis using assms(1) Some by (simp add: normalizeField_def)
qed

lemma set_prop_plain:
  assumes "list_all plain (map snd acc)" and "plain v"
  shows "list_all plain (map snd (set_prop acc key v))"
proof -
  have "\<forall>f \<in> set (assign acc key v). plain (snd f)"
    using assign_set [of acc key v] assms by (auto simp: list_all_iff)
  then show ?thesis using assms(1) by (simp add: set_prop_def list_all_iff)
qed

lemma map_items_plain:
  assumes "\<And>s x p t s'. rec s x p = Some (t, s') \<Longrightarrow> plain t"
  shows "map_items rec path i items s = Some (ts, s') \<Longrightarrow> list_all plain ts"
proof (induction items arbitrary: i s ts s')
  case Nil
  then show ?case by auto
next
  case (Cons x xs)
  from Cons.prems obtain y s1 ys s2 where
    a: "rec s x (item_path path i) = Some (y, s1)"
    and b: "map_items rec path (Suc i) xs s1 = Some (ys, s2)"
    and ts: "ts = y # ys"
    by (auto split: option.splits)
  show ?case unfolding ts using assms [OF a] Cons.IH [OF b] by simp
qed

lemma loop_entries_plain:
  assumes "\<And>s x p t s'. rec s x p = Some (t, s') \<Longrightarrow> plain t"
    and "customNormalizers cfg = []" and "plain_rules cfg"
  shows "list_all plain (map snd acc)
    \<Longrightarrow> loop_entries rec cfg path acc entries s = Some (res, s')
    \<Longrightarrow> list_all plain (map snd res)"
proof (induction entries arbitrary: acc s)
  case Nil
  then show ?case by auto
next
  case (Cons e es)
  obtain key val where e: "e = (key, val)" by (cases e)
  let ?cp = "member_path path key"
  show ?case
  proof (cases "shouldIgnoreField cfg key ?cp")
    case True
    then have "loop_entries rec cfg path acc es s = Some (res, s')"
      using Cons.prems(2) unfolding e by (simp add: Let_def)
    from Cons.IH [OF Cons.prems(1) this] show ?thesis .
  next
    case ig: False
    show ?thesis
    proof (cases "normalizeField cfg key val ?cp \<noteq> OVal JUndefined")
      case True
      then have l: "loop_entries rec cfg path (set_prop acc key (normalizeField cfg key val ?cp))
          es s = Some (res, s')"
        using Cons.prems(2) ig unfolding e by (simp add: Let_def)
      have "plain (normalizeField cfg key val ?cp)"
        by (rule normalizeField_plain [OF assms(2,3)])
      from Cons.IH [OF set_prop_plain [OF Cons.prems(1) this] l] show ?thesis .
    next
      case False
      with Cons.prems(2) ig obtain r s1 where
        a: "rec s val ?cp = Some (r, s1)"
        and l: "loop_entries rec cfg path (set_prop acc key r) es s1 = Some (res, s')"
        unfolding e by (auto simp: Let_def split: option.splits)
      from Cons.IH [OF set_prop_plain [OF Cons.prems(1) assms(1) [OF a]] l] show ?thesis .
    qed
  qed
qed

lemma normalize_plain:
  assumes "customNormalizers cfg = []" and "plain_rules cfg"
  shows "normalize_fuel n cfg h s x p = Some (t, s') \<Longrightarrow> plain t"
proof (induction n arbitrary: s x p t s')
  case 0
  then show ?case by simp
next
  case (Suc n)
  have rec: "\<And>s x p t s'. normalize_fuel n cfg h s x p = Some (t, s') \<Longrightarrow> plain t"
    by (rule Suc.IH)
  let ?sn = "if p = [] then {} else s"
  show ?case
  proof (cases x)
    case (JRef a)
    show ?thesis
    proof (cases "a \<in> ?sn")
      case True
      then show ?thesis using Suc.prems JRef by (auto simp: Let_def)
    next
      case False
      show ?thesis
      proof (cases "h a")
        case (NArray items)
        with Suc.prems JRef False obtain ys where
          m: "map_items (normalize_fuel n cfg h) p 0 items (insert a ?sn) = Some (ys, s')"
          and t: "t = OArray ys"
          by (auto simp: Let_def split: if_splits)
        have "list_all plain ys"
        proof (rule map_items_plain [OF _ m])
          show "plain u" if "normalize_fuel n cfg h s0 y q = Some (u, s1)" for s0 y q u s1
            using that by (rule rec)
        qed
        then show ?thesis unfolding t by simp
      next
        case (NObject entries)
        with Suc.prems JRef False obtain ys where
          m: "loop_entries (normalize_fuel n cfg h) cfg p [] entries (insert a ?sn) = Some (ys, s')"
          and t: "t = OObject ys"
          by (auto simp: Let_def split: if_splits)
        have init: "list_all plain (map snd [])" by simp
        have "list_all plain (map snd ys)"
        proof (rule loop_entries_plain [OF _ assms init m])
          show "plain u" if "normalize_fuel n cfg h s0 y q = Some (u, s1)" for s0 y q u s1
            using that by (rule rec)
        qed
        then show ?thesis unfolding t by simp
      qed
    qed
  qed (use Suc.prems in \<open>auto simp: Let_def\<close>)
qed

text \<open>
  C9. Under the default configuration, \<^verbatim>\<open>normalize\<close> on an acyclic value \<open>x\<close>
  returns a result \<open>t\<close>, and \<^verbatim>\<open>normalize\<close> on that result, held in a store as the
  fresh arrays and objects it is made of (such a store exists), returns \<open>t\<close> again:
  \<^verbatim>\<open>normalize(normalize(x))\<close> equals \<^verbatim>\<open>normalize(x)\<close>. This holds whatever the set of
  seen objects was before either call.
\<close>

theorem normalize_idempotent:
  assumes "acyclic_value h x"
  shows "\<exists>t. normalize_returns (new_normalizer no_config) h seenObjects x t \<and>
           (\<exists>h' x' A. fresh_copy h' x' t A) \<and>
           (\<forall>h' x' A seenObjects'. fresh_copy h' x' t A \<longrightarrow>
              normalize_returns (new_normalizer no_config) h' seenObjects' x' t)"
proof -
  let ?cfg = "new_normalizer no_config"
  have nc: "customNormalizers ?cfg = []"
    by (simp add: new_normalizer_def no_config_def DEFAULT_CONFIG_def)
  have pr: "plain_rules ?cfg"
    by (simp add: plain_rules_def new_normalizer_def no_config_def DEFAULT_CONFIG_def rule_def)
  from idempotent_without_custom [OF nc assms, of seenObjects] obtain t where
    t: "normalize_returns ?cfg h seenObjects x t"
    and again: "\<forall>h' x' A s'. fresh_copy h' x' t A \<longrightarrow> normalize_returns ?cfg h' s' x' t"
    by blast
  from t have "plain t"
    unfolding normalize_returns_def using normalize_plain [OF nc pr] by blast
  from fresh_copy_exists [OF this, of 0] have "\<exists>h' x' A. fresh_copy h' x' t A"
    by blast
  with t again show ?thesis by blast
qed

theorem normalize_idempotent_witness:
  "acyclic_value shared_heap (JRef 0) \<and>
   normalize_returns (new_normalizer no_config) shared_heap {} (JRef 0) shared_result \<and>
   fresh_copy result_heap (JRef 4) shared_result {4, 5} \<and>
   normalize_returns (new_normalizer no_config) result_heap {0, 2} (JRef 4) shared_result"
proof -
  let ?cfg = "new_normalizer no_config"
  have h0: "shared_heap 0 = NObject [(''first'', JRef 2), (''second'', JRef 2)]"
    and h2: "shared_heap 2 = NArray [JNum 1]"
    by (simp_all add: shared_heap_def)
  have "acyclic_value shared_heap (JRef 2)"
    using h2 by (intro acyclic_value.array [of shared_heap 2 "[JNum 1]"])
      (simp_all add: acyclic_value.primitive)
  then have ac: "acyclic_value shared_heap (JRef 0)"
    using h0
    by (intro acyclic_value.object
          [of shared_heap 0 "[(''first'', JRef 2), (''second'', JRef 2)]"]) simp_all
  have "normalize_fuel 3 ?cfg shared_heap {} (JRef 0) [] = Some (shared_result, {0, 2})"
    by code_simp
  then have first: "normalize_returns ?cfg shared_heap {} (JRef 0) shared_result"
    unfolding normalize_returns_def by blast
  have r4: "result_heap 4 = NObject [(''first'', JRef 5), (''second'', JStr ''[Circular]'')]"
    and r5: "result_heap 5 = NArray [JNum 1]"
    by (simp_all add: result_heap_def)
  have leaf1: "fresh_copy result_heap (JNum 1) (OVal (JNum 1)) {}"
    and leaf2: "fresh_copy result_heap (JStr ''[Circular]'') (OVal (JStr ''[Circular]'')) {}"
    by (simp_all add: fresh_copy_fresh_copies.leaf)
  have items: "fresh_copies result_heap [JNum 1] [OVal (JNum 1)] {}"
    using fresh_copy_fresh_copies.more [OF leaf1 fresh_copy_fresh_copies.none] by simp
  have inner: "fresh_copy result_heap (JRef 5) (OArray [OVal (JNum 1)]) {5}"
    using fresh_copy_fresh_copies.arr [OF r5 items] by simp
  have "fresh_copies result_heap [JStr ''[Circular]''] [OVal (JStr ''[Circular]'')] {}"
    using fresh_copy_fresh_copies.more [OF leaf2 fresh_copy_fresh_copies.none] by simp
  from fresh_copy_fresh_copies.more [OF inner this]
  have "fresh_copies result_heap
      (map snd [(''first'', JRef 5), (''second'', JStr ''[Circular]'')])
      (map snd [(''first'', OArray [OVal (JNum 1)]), (''second'', OVal (JStr ''[Circular]''))])
      {5}"
    by simp
  from fresh_copy_fresh_copies.obj [OF r4 _ this]
  have "fresh_copy result_heap (JRef 4) shared_result (insert 4 {5})"
    by (simp add: shared_result_def)
  then have copy: "fresh_copy result_heap (JRef 4) shared_result {4, 5}"
    by simp
  from normalize_idempotent [OF ac, of "{}"] obtain t where
    t: "normalize_returns ?cfg shared_heap {} (JRef 0) t"
    and again: "\<And>h' x' A s'. fresh_copy h' x' t A \<Longrightarrow> normalize_returns ?cfg h' s' x' t"
    by blast
  have "t = shared_result"
    using t first by (rule normalize_returns_unique)
  then have "normalize_returns ?cfg result_heap {0, 2} (JRef 4) shared_result"
    using again copy by blast
  then show ?thesis using ac first copy by blast
qed

section \<open>Properties of the hook base\<close>

lemma run_callbacks_append:
  "run_callbacks (xs @ ys) w =
     (fst (run_callbacks xs w) @ fst (run_callbacks ys (snd (run_callbacks xs w))),
      snd (run_callbacks ys (snd (run_callbacks xs w))))"
  by (induction xs arbitrary: w) (simp_all add: split_beta Let_def)

lemma failures_append:
  "failures (xs @ ys) w = failures xs w @ failures ys (snd (run_callbacks xs w))"
  by (induction xs arbitrary: w) (simp_all add: split_beta Let_def)

lemma safeHook_settles:
  "is_returns (fst (safeHook f w)) \<longleftrightarrow>
     (case fst (f w) of Returns r \<Rightarrow> True | Throws t \<Rightarrow> is_returns (as_error t))"
  by (simp add: safeHook_def Let_def split: prod.splits outcome.splits)

lemma run_callbacks_all_return:
  "\<forall>t \<in> set (failures fs w). is_returns (as_error t)
     \<Longrightarrow> list_all is_returns (fst (run_callbacks fs w))"
proof (induction fs arbitrary: w)
  case Nil
  show ?case by simp
next
  case (Cons f fs)
  have "is_returns (fst (safeHook f w))"
    using Cons.prems by (simp add: safeHook_settles split: outcome.splits)
  moreover have "list_all is_returns (fst (run_callbacks fs (snd (safeHook f w))))"
    using Cons.prems by (intro Cons.IH) simp
  ultimately show ?case by (simp add: split_beta Let_def)
qed

lemma safeHook_stores:
  "f w = (Throws t, w') \<Longrightarrow> as_error t = Returns e
     \<Longrightarrow> getLastError (snd (safeHook f w)) = Some e"
  by (simp add: safeHook_def getLastError_def say_def Let_def)

lemma safeHook_passes:
  "f w = (Returns r, w') \<Longrightarrow> safeHook f w = (Returns (Some r), w')"
  by (simp add: safeHook_def)

lemma undisturbed_keeps:
  "undisturbed fs w \<Longrightarrow> getLastError (snd (run_callbacks fs w)) = getLastError w"
proof (induction fs arbitrary: w)
  case Nil
  show ?case by simp
next
  case (Cons f fs)
  from Cons.prems obtain r w1 where
    f: "f w = (Returns r, w1)" and keep: "lastError (hook w1) = lastError (hook w)"
    and rest: "undisturbed fs w1"
    by (auto split: prod.splits outcome.splits)
  have "getLastError (snd (run_callbacks (f # fs) w)) = getLastError (snd (run_callbacks fs w1))"
    using safeHook_passes [of f w r w1] f by (simp add: split_beta)
  also have "\<dots> = getLastError w1" by (rule Cons.IH [OF rest])
  finally show ?case using keep by (simp add: getLastError_def)
qed

text \<open>
  C2, as the code has it. Take a sequence of instrumented-callback executions on one
  hook instance in which two or more callbacks throw, every thrown value being an
  \<^verbatim>\<open>Error\<close> or a value that \<^verbatim>\<open>String(..)\<close> converts, and let \<open>f\<close> be the last one
  that throws: the callbacks after it return and leave the stored error as it is. Then
  every execution through \<^verbatim>\<open>safeHook\<close> settles by returning, so no failure reaches the
  runtime; and afterwards \<^verbatim>\<open>getLastError\<close> returns the failure of \<open>f\<close>, the last that
  occurred: each caught failure overwrites the stored one.
\<close>

theorem getLastError_is_latest_failure:
  assumes "2 \<le> length (failures (pre @ f # post) w)"
    and "\<forall>u \<in> set (failures (pre @ f # post) w). is_returns (as_error u)"
    and "f (snd (run_callbacks pre w)) = (Throws t, w')"
    and "as_error t = Returns e"
    and "undisturbed post (snd (safeHook f (snd (run_callbacks pre w))))"
  shows "list_all is_returns (fst (run_callbacks (pre @ f # post) w)) \<and>
         getLastError (snd (run_callbacks (pre @ f # post) w)) = Some e"
proof -
  let ?w1 = "snd (run_callbacks pre w)"
  let ?w2 = "snd (safeHook f ?w1)"
  have all: "list_all is_returns (fst (run_callbacks (pre @ f # post) w))"
    using assms(2) by (rule run_callbacks_all_return)
  have "snd (run_callbacks (pre @ f # post) w) = snd (run_callbacks post ?w2)"
    by (simp add: run_callbacks_append split_beta Let_def)
  then have "getLastError (snd (run_callbacks (pre @ f # post) w)) = getLastError ?w2"
    using undisturbed_keeps [OF assms(5)] by simp
  also have "\<dots> = Some e"
    using assms(3,4) by (rule safeHook_stores)
  finally show ?thesis using all by simp
qed

theorem getLastError_is_latest_failure_witness:
  "2 \<le> length (failures ([throwing (ThrownError (new_Error ''first''))]
            @ throwing (ThrownValue ''second'') # [returning (1::nat)]) fresh_world) \<and>
   as_error (ThrownValue ''second'') = Returns (new_Error ''second'') \<and>
   list_all is_returns
     (fst (run_callbacks ([throwing (ThrownError (new_Error ''first''))]
            @ throwing (ThrownValue ''second'') # [returning (1::nat)]) fresh_world)) \<and>
   getLastError
     (snd (run_callbacks ([throwing (ThrownError (new_Error ''first''))]
            @ throwing (ThrownValue ''second'') # [returning (1::nat)]) fresh_world))
     = Some (new_Error ''second'')"
proof -
  let ?pre = "[throwing (ThrownError (new_Error ''first'')) :: nat hook_fn]"
  let ?f = "throwing (ThrownValue ''second'') :: nat hook_fn"
  let ?post = "[returning (1::nat)]"
  have two: "2 \<le> length (failures (?pre @ ?f # ?post) fresh_world)"
    by (simp add: throwing_def returning_def)
  have conv: "\<forall>u \<in> set (failures (?pre @ ?f # ?post) fresh_world). is_returns (as_error u)"
    by (simp add: throwing_def returning_def)
  have thr: "?f (snd (run_callbacks ?pre fresh_world)) =
      (Throws (ThrownValue ''second''), snd (run_callbacks ?pre fresh_world))"
    by (simp add: throwing_def)
  have e: "as_error (ThrownValue ''second'') = Returns (new_Error ''second'')"
    by simp
  have und: "undisturbed ?post (snd (safeHook ?f (snd (run_callbacks ?pre fresh_world))))"
    by (simp add: returning_def)
  from getLastError_is_latest_failure [OF two conv thr e und]
  show ?thesis using two e by blast
qed

text \<open>
  Two failing executions: the stored error is the second failure, not the first.
\<close>

theorem first_failure_overwritten:
  "failures [throwing (ThrownError (new_Error ''first'')) :: unit hook_fn,
             throwing (ThrownError (new_Error ''second''))] fresh_world
     = [ThrownError (new_Error ''first''), ThrownError (new_Error ''second'')] \<and>
   getLastError
     (snd (run_callbacks [throwing (ThrownError (new_Error ''first'')) :: unit hook_fn,
                          throwing (ThrownError (new_Error ''second''))] fresh_world))
     = Some (new_Error ''second'') \<and>
   new_Error ''second'' \<noteq> new_Error ''first''"
  by (simp add: throwing_def safeHook_def getLastError_def say_def Let_def new_Error_def)

text \<open>
  What the conditions are for. A thrown value that \<^verbatim>\<open>String(..)\<close> cannot convert
  makes the \<^verbatim>\<open>catch\<close> block of \<^verbatim>\<open>safeHook\<close> throw: the failure reaches the caller and
  nothing is stored. A callback that returns may itself write the stored error: it may
  clear it, and \<^verbatim>\<open>writeStreamingChunks\<close> stores a failed write and returns.
\<close>

lemma unprintable_failure_propagates:
  "safeHook (throwing (ThrownUnprintable u)) w = (Throws u, w)"
  by (simp add: safeHook_def throwing_def)

lemma returning_callback_clears:
  "getLastError (snd (run_callbacks [throwing (ThrownError e), clearing r] w)) = None"
  by (simp add: safeHook_def throwing_def clearing_def clearError_def getLastError_def say_def
      Let_def)

lemma failed_write_is_stored:
  "safeHook (writeStreamingChunks path (Suc n) (Throws (ThrownError e))) w =
     (Returns (Some ()),
      (say LError (''Failed to write streaming chunks: '' @ message e) w)
        \<lparr> hook := (hook w)\<lparr> lastError := Some e \<rparr> \<rparr>)"
  by (simp add: safeHook_def writeStreamingChunks_def say_def Let_def)

text \<open>
  C8, as the code has it. \<^verbatim>\<open>hookAgent\<close> on an installed hook changes neither the hook
  (its backup map included) nor the agent, and logs a warning. \<^verbatim>\<open>unhookAgent\<close> on a
  hook that is not installed changes nothing at all: it logs no warning. Neither can
  fail. \<^verbatim>\<open>hookAgent\<close> on a hook that is not installed marks it installed, backs up the
  agent's nine callbacks and puts the instrumented wrappers in their place; and
  \<^verbatim>\<open>unhookAgent\<close> in any later state that still has this backup gives the agent exactly
  the callbacks it had at install time, and leaves the hook uninstalled with an empty
  backup.
\<close>

theorem hook_lifecycle:
  "(isHooked (hook w) \<longrightarrow>
      hook (hookAgent w) = hook w \<and> agent (hookAgent w) = agent w \<and>
      logger (hookAgent w) = logger w @ [(LWarn, ''Agent already hooked, skipping'')]) \<and>
   (\<not> isHooked (hook w) \<longrightarrow> unhookAgent w = w) \<and>
   (\<not> isHooked (hook w) \<longrightarrow>
      isHooked (hook (hookAgent w)) \<and>
      originalHooks (hook (hookAgent w)) = (\<lambda>p. Some (callbacks (agent w) p)) \<and>
      callbacks (agent (hookAgent w)) = Instrumented \<and>
      (\<forall>w1. isHooked (hook w1) \<and> originalHooks (hook w1) = originalHooks (hook (hookAgent w)) \<longrightarrow>
         callbacks (agent (unhookAgent w1)) = callbacks (agent w) \<and>
         \<not> isHooked (hook (unhookAgent w1)) \<and>
         originalHooks (hook (unhookAgent w1)) = Map.empty))"
  by (auto simp: hookAgent_def unhookAgent_def say_def)

theorem hook_lifecycle_witness:
  "hook (hookAgent (hookAgent fresh_world)) = hook (hookAgent fresh_world) \<and>
   agent (hookAgent (hookAgent fresh_world)) = agent (hookAgent fresh_world) \<and>
   logger (hookAgent (hookAgent fresh_world)) =
     logger (hookAgent fresh_world) @ [(LWarn, ''Agent already hooked, skipping'')] \<and>
   unhookAgent fresh_world = fresh_world \<and>
   callbacks (agent (unhookAgent (hookAgent fresh_world))) = callbacks (agent fresh_world)"
proof -
  have a: "isHooked (hook (hookAgent fresh_world))"
    by (simp add: hookAgent_def fresh_world_def new_hook_def say_def)
  have b: "\<not> isHooked (hook fresh_world)"
    by (simp add: fresh_world_def new_hook_def)
  show ?thesis
    using hook_lifecycle [of "hookAgent fresh_world"] hook_lifecycle [of fresh_world] a b
    by blast
qed

text \<open>A redundant \<^verbatim>\<open>unhookAgent\<close> logs nothing.\<close>

theorem unhook_without_warning:
  "\<not> isHooked (hook fresh_world) \<and> logger (unhookAgent fresh_world) = []"
  by (simp add: unhookAgent_def fresh_world_def new_hook_def)

section \<open>Properties of the orchestrator\<close>

subsection \<open>Loop directories\<close>

lemmas number_simps =
  loop_number_def parseInt_def parse_digits_def digit_value_def space1_def space2_def
  space3_def to_number_def round_to_double_def upt_rec

lemma filter_loops_listing:
  "filter_loops entries = Inr dirs \<Longrightarrow>
   dirs = map fst (filter (\<lambda>(dir, st). starts_with ''loop-'' dir \<and> st = IsDirectory True) entries)"
proof (induction entries arbitrary: dirs)
  case Nil
  then show ?case by simp
next
  case (Cons entry rest)
  obtain dir st where entry: "entry = (dir, st)" by (cases entry)
  show ?case
    using Cons.prems Cons.IH
    by (auto simp: entry split: if_splits stat_result.splits sum.splits)
qed

lemma filter_loops_returns:
  "(\<exists>dirs. filter_loops entries = Inr dirs) \<longleftrightarrow>
   (\<forall>(dir, st) \<in> set entries. starts_with ''loop-'' dir \<longrightarrow> (\<exists>b. st = IsDirectory b))"
proof (induction entries)
  case Nil
  show ?case by simp
next
  case (Cons entry rest)
  obtain dir st where entry: "entry = (dir, st)" by (cases entry)
  show ?case
  proof (cases "starts_with ''loop-'' dir")
    case False
    then show ?thesis using Cons.IH by (simp add: entry)
  next
    case True
    show ?thesis
    proof (cases st)
      case (StatFails e)
      then show ?thesis using True by (simp add: entry)
    next
      case (IsDirectory b)
      then show ?thesis
        using True Cons.IH by (cases "filter_loops rest") (auto simp: entry)
    qed
  qed
qed

lemma mset_insert_sorted: "mset (insert_sorted a bs) = add_mset a (mset bs)"
  by (induction bs) simp_all

lemma mset_insertion_sort: "mset (foldr insert_sorted names []) = mset names"
  by (induction names) (simp_all add: mset_insert_sorted)

lemma mset_sort_loops:
  "\<forall>xs. mset (engine xs) = mset xs \<Longrightarrow> mset (sort_loops engine names) = mset names"
  by (simp add: sort_loops_def mset_insertion_sort)

lemma insert_sorted_ordered:
  assumes "\<forall>d \<in> set (a # bs). \<exists>x. loop_number d = Finite x"
    and "sorted_wrt (\<lambda>a b. \<not> comes_after a b) bs"
  shows "sorted_wrt (\<lambda>a b. \<not> comes_after a b) (insert_sorted a bs)"
  using assms
proof (induction bs)
  case Nil
  show ?case by simp
next
  case (Cons b bs)
  obtain x where x: "loop_number a = Finite x" using Cons.prems(1) by auto
  obtain y where y: "loop_number b = Finite y" using Cons.prems(1) by auto
  show ?case
  proof (cases "comes_after a b")
    case False
    have "\<not> comes_after a c" if c: "c \<in> set bs" for c
    proof -
      obtain z where z: "loop_number c = Finite z" using Cons.prems(1) c by auto
      have "\<not> comes_after b c" using Cons.prems(2) c by simp
      then show ?thesis using False by (simp add: comes_after_def x y z)
    qed
    then show ?thesis using False Cons.prems(2) by simp
  next
    case True
    have rest: "sorted_wrt (\<lambda>a b. \<not> comes_after a b) (insert_sorted a bs)"
      using Cons.IH Cons.prems by simp
    have "set (insert_sorted a bs) = insert a (set bs)"
      using mset_insert_sorted [of a bs] by (metis set_mset_mset set_mset_add_mset_insert)
    moreover have "\<not> comes_after b a" using True by (simp add: comes_after_def x y)
    ultimately show ?thesis using True rest Cons.prems(2) by simp
  qed
qed

lemma insertion_sort_ordered:
  "\<forall>d \<in> set names. \<exists>x. loop_number d = Finite x \<Longrightarrow>
   sorted_wrt (\<lambda>a b. \<not> comes_after a b) (foldr insert_sorted names [])"
proof (induction names)
  case Nil
  show ?case by simp
next
  case (Cons a names)
  have "\<forall>d \<in> set (a # foldr insert_sorted names []). \<exists>x. loop_number d = Finite x"
    using Cons.prems mset_insertion_sort [of names] by (metis set_mset_mset set_ConsD list.set_intros)
  then show ?case using Cons insert_sorted_ordered by simp
qed

lemma ordered_numbers:
  "\<forall>d \<in> set dirs. \<exists>x. loop_number d = Finite x \<Longrightarrow>
   sorted_wrt (\<lambda>a b. \<not> comes_after a b) dirs \<Longrightarrow>
   \<exists>ns. map loop_number dirs = map Finite ns \<and> sorted ns"
proof (induction dirs)
  case Nil
  show ?case by simp
next
  case (Cons d dirs)
  obtain x where x: "loop_number d = Finite x" using Cons.prems(1) by auto
  obtain ns where ns: "map loop_number dirs = map Finite ns" "sorted ns"
    using Cons by auto
  have "x \<le> n" if n: "n \<in> set ns" for n
  proof -
    have "Finite n \<in> set (map loop_number dirs)" using n ns(1) by simp
    then obtain c where c: "c \<in> set dirs" "loop_number c = Finite n" by auto
    have "\<not> comes_after d c" using Cons.prems(2) c(1) by simp
    then show ?thesis by (simp add: comes_after_def x c(2))
  qed
  then have "map loop_number (d # dirs) = map Finite (x # ns) \<and> sorted (x # ns)"
    using x ns by simp
  then show ?case by blast
qed

lemma finite_consistent:
  "\<forall>d \<in> set names. \<exists>x. loop_number d = Finite x \<Longrightarrow> consistent names"
  by (auto simp: consistent_def list_all_iff)

text \<open>
  C5, as the code has it. Let the engine's \<^verbatim>\<open>sort\<close> rearrange its array, as the
  language requires. The enumeration of \<^verbatim>\<open>countLoops\<close> completes exactly when
  \<^verbatim>\<open>statSync\<close> succeeds for every listed name that starts with \<^verbatim>\<open>loop-\<close>. When it
  does, the loop count is the number of enumerated entries, and these are the listed
  directories whose names start with \<^verbatim>\<open>loop-\<close>, each as often as it is listed: what
  follows the prefix is not looked at, so a directory \<^verbatim>\<open>loop-abc\<close> is among them. When
  moreover, for every enumerated name, \<^verbatim>\<open>parseInt\<close> of the text between its first and
  its second \<^verbatim>\<open>-\<close> is a finite number, the entries stand in the order of these
  numbers, smallest first.
\<close>

theorem loop_directories:
  assumes "\<forall>xs. mset (engine xs) = mset xs"
  shows "((\<exists>dirs. loopDirs engine entries = Inr dirs) \<longleftrightarrow>
            (\<forall>(dir, st) \<in> set entries. starts_with ''loop-'' dir \<longrightarrow> (\<exists>b. st = IsDirectory b))) \<and>
         (\<forall>dirs. loopDirs engine entries = Inr dirs \<longrightarrow>
            countLoops engine (Listing entries) = Inr (length dirs) \<and>
            mset dirs = mset (map fst (filter (\<lambda>(dir, st). starts_with ''loop-'' dir \<and>
                                                 st = IsDirectory True) entries)) \<and>
            ((\<forall>d \<in> set dirs. \<exists>x. loop_number d = Finite x) \<longrightarrow>
               (\<exists>ns. map loop_number dirs = map Finite ns \<and> sorted ns)))"
proof -
  have a: "(\<exists>dirs. loopDirs engine entries = Inr dirs) \<longleftrightarrow>
            (\<forall>(dir, st) \<in> set entries. starts_with ''loop-'' dir \<longrightarrow> (\<exists>b. st = IsDirectory b))"
    using filter_loops_returns [of entries]
    by (cases "filter_loops entries") (simp_all add: loopDirs_def)
  have b: "countLoops engine (Listing entries) = Inr (length dirs) \<and>
            mset dirs = mset (map fst (filter (\<lambda>(dir, st). starts_with ''loop-'' dir \<and>
                                                 st = IsDirectory True) entries)) \<and>
            ((\<forall>d \<in> set dirs. \<exists>x. loop_number d = Finite x) \<longrightarrow>
               (\<exists>ns. map loop_number dirs = map Finite ns \<and> sorted ns))"
    if ld: "loopDirs engine entries = Inr dirs" for dirs
  proof -
    obtain names where names: "filter_loops entries = Inr names"
      and dirs: "dirs = sort_loops engine names"
      using ld by (cases "filter_loops entries") (simp_all add: loopDirs_def)
    have perm: "mset dirs = mset names"
      using assms by (simp add: dirs mset_sort_loops)
    have c: "countLoops engine (Listing entries) = Inr (length dirs)"
      using ld by (simp add: countLoops_def)
    have m: "mset dirs = mset (map fst (filter (\<lambda>(dir, st). starts_with ''loop-'' dir \<and>
                                                 st = IsDirectory True) entries))"
      using perm filter_loops_listing [OF names] by simp
    have s: "\<exists>ns. map loop_number dirs = map Finite ns \<and> sorted ns"
      if fin: "\<forall>d \<in> set dirs. \<exists>x. loop_number d = Finite x"
    proof -
      have "set names = set dirs" using perm by (metis set_mset_mset)
      then have fin': "\<forall>d \<in> set names. \<exists>x. loop_number d = Finite x" using fin by simp
      then have "dirs = foldr insert_sorted names []"
        using finite_consistent by (simp add: dirs sort_loops_def)
      then have "sorted_wrt (\<lambda>a b. \<not> comes_after a b) dirs"
        using insertion_sort_ordered [OF fin'] by simp
      then show ?thesis using ordered_numbers fin by blast
    qed
    show ?thesis using c m s by blast
  qed
  show ?thesis using a b by blast
qed

lemma loop_numbers_of_example:
  "loop_number ''loop-1'' = Finite 1" "loop_number ''loop-2'' = Finite 2"
  "loop_number ''loop-10'' = Finite 10"
  by (simp_all add: number_simps)

theorem loop_directories_witness:
  "loopDirs (\<lambda>xs. xs) [(''loop-10'', IsDirectory True), (''loop-2'', IsDirectory True),
                       (''loops'', IsDirectory True), (''loop-1'', IsDirectory True),
                       (''loop-4'', IsDirectory False)]
     = Inr [''loop-1'', ''loop-2'', ''loop-10''] \<and>
   countLoops (\<lambda>xs. xs) (Listing [(''loop-10'', IsDirectory True), (''loop-2'', IsDirectory True),
                       (''loops'', IsDirectory True), (''loop-1'', IsDirectory True),
                       (''loop-4'', IsDirectory False)]) = Inr 3 \<and>
   (\<exists>ns. map loop_number [''loop-1'', ''loop-2'', ''loop-10''] = map Finite ns \<and> sorted ns)"
proof -
  let ?entries = "[(''loop-10'', IsDirectory True), (''loop-2'', IsDirectory True),
                       (''loops'', IsDirectory True), (''loop-1'', IsDirectory True),
                       (''loop-4'', IsDirectory False)]"
  have ld: "loopDirs (\<lambda>xs. xs) ?entries = Inr [''loop-1'', ''loop-2'', ''loop-10'']"
    by (simp add: loopDirs_def sort_loops_def consistent_def comes_after_def
        loop_numbers_of_example)
  have fin: "\<forall>d \<in> set [''loop-1'', ''loop-2'', ''loop-10'']. \<exists>x. loop_number d = Finite x"
    by (simp add: loop_numbers_of_example)
  have "countLoops (\<lambda>xs. xs) (Listing ?entries) = Inr (length [''loop-1'', ''loop-2'', ''loop-10''])
     \<and> (\<exists>ns. map loop_number [''loop-1'', ''loop-2'', ''loop-10''] = map Finite ns \<and> sorted ns)"
    using loop_directories [of "\<lambda>xs. xs" ?entries] ld fin by blast
  then show ?thesis using ld by simp
qed

text \<open>
  A directory whose name has no integer after \<^verbatim>\<open>loop-\<close> is enumerated and counted.
\<close>

theorem non_integer_loop_directory_counted:
  "loop_number ''loop-abc'' = NaN \<and>
   loopDirs (\<lambda>xs. xs) [(''loop-abc'', IsDirectory True)] = Inr [''loop-abc''] \<and>
   countLoops (\<lambda>xs. xs) (Listing [(''loop-abc'', IsDirectory True)]) = Inr 1"
  by (simp add: countLoops_def loopDirs_def sort_loops_def consistent_def number_simps)

text \<open>
  The numbers compared are doubles: beyond \<open>2 ^ 53\<close> a name's number is the nearest
  double. White space before the digits is skipped, also outside ASCII. And the text
  parsed ends at the second \<^verbatim>\<open>-\<close>, so it is empty for \<^verbatim>\<open>loop--2\<close>.
\<close>

lemma bit_length_example: "bit_length 9007199254740993 = 54"
  by (simp add: bit_length.simps)

lemma loop_number_is_a_double: "loop_number ''loop-9007199254740993'' = Finite 9007199254740992"
  by (simp add: number_simps bit_length_example)

lemma loop_number_skips_no_break_space:
  "loop_number (''loop-'' @ [CHR 0xC2, CHR 0xA0] @ ''7'') = Finite 7"
  by (simp add: number_simps)

lemma loop_number_of_empty_segment: "loop_number ''loop--2'' = NaN"
  by (simp add: number_simps)

subsection \<open>Replaying a snapshot\<close>

lemma snapshotExists_cases:
  "snapshotExists engine root =
     (case countLoops engine root of Inl e \<Rightarrow> Inl e | Inr n \<Rightarrow> Inr (0 < n))"
  by (cases root) (simp_all add: snapshotExists_def countLoops_def)

lemma test_try_not_found: "fst (test_try ext self n opts w0) \<noteq> Inl (SnapshotNotFound p)"
  by (auto simp: test_try_def stored_error_def Let_def
      split: prod.splits outcome.splits option.splits if_splits)

lemma test_catch_not_found:
  "fst tried \<noteq> Inl (SnapshotNotFound p) \<Longrightarrow> fst (test_catch tried) \<noteq> Inl (SnapshotNotFound p)"
  by (auto simp: test_catch_def split: prod.splits sum.splits outcome.splits)



lemma test_when_exists:
  "countLoops (array_sort ext) root = Inr n \<Longrightarrow> 0 < n \<Longrightarrow>
   fst (test ext self root config ag lg) =
     fst (test_catch (test_try ext self n (setup_options self config)
            (replay_start self n config ag lg)))"
  by (simp add: test_def snapshotExists_cases Let_def split: prod.splits)





text \<open>
  C4, as the code has it. \<^verbatim>\<open>test\<close> fails with the not-found error, whose message
  tells the caller to generate the snapshot first, if and only if the loop count can be
  taken and is zero; and, the engine's \<^verbatim>\<open>sort\<close> keeping the length of its array, that
  is so exactly when the snapshot path is absent or is a directory that can be listed,
  in which \<^verbatim>\<open>statSync\<close> succeeds for the names that start with \<^verbatim>\<open>loop-\<close> and none of
  them is a directory. When listing the path or \<^verbatim>\<open>statSync\<close> throws, \<^verbatim>\<open>test\<close> fails
  with that error of the file system instead. Either failure comes before the replay
  hook exists: the agent is as it was, its callbacks included.
\<close>

theorem snapshot_not_found:
  "((\<exists>p. fst (test ext self root config ag lg) = Inl (SnapshotNotFound p)) \<longleftrightarrow>
      countLoops (array_sort ext) root = Inr 0) \<and>
   (countLoops (array_sort ext) root = Inr 0 \<longrightarrow>
      fst (test ext self root config ag lg) = Inl (SnapshotNotFound (snapshotPath self)) \<and>
      fst (snd (test ext self root config ag lg)) = ag) \<and>
   (countLoops (array_sort ext) root = Inl e \<longrightarrow>
      fst (test ext self root config ag lg) = Inl (Raised (ThrownError e)) \<and>
      fst (snd (test ext self root config ag lg)) = ag) \<and>
   ((\<forall>xs. length (array_sort ext xs) = length xs) \<longrightarrow>
      (countLoops (array_sort ext) root = Inr 0 \<longleftrightarrow>
         root = Absent \<or> (\<exists>entries. root = Listing entries \<and> filter_loops entries = Inr [])))"
proof -
  have a: "fst (test ext self root config ag lg) = Inl (SnapshotNotFound (snapshotPath self)) \<and>
      fst (snd (test ext self root config ag lg)) = ag"
    if "countLoops (array_sort ext) root = Inr 0"
    using that by (simp add: test_def snapshotExists_cases)
  have b: "fst (test ext self root config ag lg) = Inl (Raised (ThrownError e)) \<and>
      fst (snd (test ext self root config ag lg)) = ag"
    if "countLoops (array_sort ext) root = Inl e" for e
    using that by (simp add: test_def snapshotExists_cases)
  have c: "countLoops (array_sort ext) root = Inr 0"
    if nf: "fst (test ext self root config ag lg) = Inl (SnapshotNotFound p)" for p
  proof (cases "countLoops (array_sort ext) root")
    case (Inl e)
    with b [OF Inl] nf show ?thesis by simp
  next
    case (Inr n)
    show ?thesis
    proof (cases "n = 0")
      case True
      with Inr show ?thesis by simp
    next
      case False
      then have "fst (test ext self root config ag lg) \<noteq> Inl (SnapshotNotFound p)"
        using test_when_exists [OF Inr, of self config ag lg]
          test_catch_not_found [OF test_try_not_found] by simp
      with nf show ?thesis by simp
    qed
  qed
  have d: "countLoops (array_sort ext) root = Inr 0 \<longleftrightarrow>
         root = Absent \<or> (\<exists>entries. root = Listing entries \<and> filter_loops entries = Inr [])"
    if len: "\<forall>xs. length (array_sort ext xs) = length xs"
  proof -
    have "length (sort_loops (array_sort ext) dirs) = 0 \<longleftrightarrow> dirs = []" for dirs
    proof -
      have "length (foldr insert_sorted xs []) = length xs" for xs
      proof (induction xs)
        case Nil
        show ?case by simp
      next
        case (Cons a xs)
        have "length (insert_sorted a ys) = Suc (length ys)" for ys
          by (induction ys) simp_all
        then show ?case using Cons by simp
      qed
      then have "length (sort_loops (array_sort ext) dirs) = length dirs"
        using len by (simp add: sort_loops_def)
      then show ?thesis by simp
    qed
    then show ?thesis
      by (cases root) (auto simp: countLoops_def loopDirs_def split: sum.splits)
  qed
  show ?thesis using a b c d by blast
qed

theorem snapshot_not_found_witness:
  "countLoops (array_sort two_loop_run) (Listing [(''notes.txt'', IsDirectory False)]) = Inr 0 \<and>
   fst (test two_loop_run case_snapshot (Listing [(''notes.txt'', IsDirectory False)]) None
          idle_agent [])
     = Inl (SnapshotNotFound ''/snapshots/case'') \<and>
   callbacks (fst (snd (test two_loop_run case_snapshot
          (Listing [(''notes.txt'', IsDirectory False)]) None idle_agent []))) = (\<lambda>p. Fn 7) \<and>
   filter_loops [(''notes.txt'', IsDirectory False)] = Inr [] \<and>
   fst (test two_loop_run case_snapshot dangling_link None idle_agent [])
     = Inl (Raised (ThrownError (JsError ''Error'' ''ENOENT: no such file or directory, stat''))) \<and>
   callbacks (fst (snd (test two_loop_run case_snapshot dangling_link None idle_agent [])))
     = (\<lambda>p. Fn 7)"
proof -
  have n: "countLoops (array_sort two_loop_run) (Listing [(''notes.txt'', IsDirectory False)]) = Inr 0"
    by (simp add: countLoops_def loopDirs_def sort_loops_def consistent_def)
  have e: "countLoops (array_sort two_loop_run) dangling_link =
      Inl (JsError ''Error'' ''ENOENT: no such file or directory, stat'')"
    by (simp add: countLoops_def loopDirs_def dangling_link_def)
  have len: "\<forall>xs. length (array_sort two_loop_run xs) = length xs"
    by (simp add: two_loop_run_def)
  have a: "fst (test two_loop_run case_snapshot (Listing [(''notes.txt'', IsDirectory False)]) None
          idle_agent []) = Inl (SnapshotNotFound (snapshotPath case_snapshot)) \<and>
      fst (snd (test two_loop_run case_snapshot (Listing [(''notes.txt'', IsDirectory False)]) None
          idle_agent [])) = idle_agent"
    using snapshot_not_found
      [of two_loop_run case_snapshot "Listing [(''notes.txt'', IsDirectory False)]" None
          idle_agent "[]"] n
    by blast
  have b: "fst (test two_loop_run case_snapshot dangling_link None idle_agent []) =
      Inl (Raised (ThrownError (JsError ''Error'' ''ENOENT: no such file or directory, stat''))) \<and>
      fst (snd (test two_loop_run case_snapshot dangling_link None idle_agent [])) = idle_agent"
    using snapshot_not_found
      [of two_loop_run case_snapshot dangling_link None idle_agent "[]"
          "JsError ''Error'' ''ENOENT: no such file or directory, stat''"] e
    by blast
  have c: "filter_loops [(''notes.txt'', IsDirectory False)] = Inr []"
    using snapshot_not_found
      [of two_loop_run case_snapshot "Listing [(''notes.txt'', IsDirectory False)]" None
          idle_agent "[]"] n len
    by auto
  show ?thesis
    using n a b c by (simp add: case_snapshot_def idle_agent_def)
qed

text \<open>
  A regular file at the snapshot path: there is no snapshot directory, and \<^verbatim>\<open>test\<close>
  fails with the error of \<^verbatim>\<open>readdirSync\<close>, which is not the not-found error.
\<close>

theorem regular_file_is_not_not_found:
  "countLoops (array_sort two_loop_run) regular_file =
     Inl (JsError ''Error'' ''ENOTDIR: not a directory, scandir'') \<and>
   fst (test two_loop_run case_snapshot regular_file None idle_agent []) =
     Inl (Raised (ThrownError (JsError ''Error'' ''ENOTDIR: not a directory, scandir'')))"
  by (simp add: test_def snapshotExists_def countLoops_def regular_file_def)




end
